theory Spec2Isabelle
  imports Main
begin

section \<open>The program: tittac.py\<close>

text \<open>
  The board is a Python list of nine strings: the empty string for a free cell and the
  two marks of the players. Python raises where a list is read or written out of range
  and where the recursion gets deeper than the interpreter allows; both are values of
  the error type here, and a function that can raise returns \<open>error + 'a\<close>.
\<close>

type_synonym board = "string list"

datatype error = IndexError | RecursionError

text \<open>The result of one search call: the pair (value, best move or None).\<close>

type_synonym outcome = "int \<times> nat option"

definition and_then :: "error + 'a \<Rightarrow> ('a \<Rightarrow> error + 'b) \<Rightarrow> error + 'b" where
  "and_then r f = (case r of Inl e \<Rightarrow> Inl e | Inr x \<Rightarrow> f x)"

text \<open>\<open>xs[i]\<close> and \<open>xs[i] = v\<close> for an index that is not negative.\<close>

definition getitem :: "'a list \<Rightarrow> nat \<Rightarrow> error + 'a" where
  "getitem xs i = (if i < length xs then Inr (xs ! i) else Inl IndexError)"

definition setitem :: "'a list \<Rightarrow> nat \<Rightarrow> 'a \<Rightarrow> error + 'a list" where
  "setitem xs i v = (if i < length xs then Inr (xs[i := v]) else Inl IndexError)"

definition WINNING_LINES :: "(nat \<times> nat \<times> nat) list" where
  "WINNING_LINES =
     [(0, 1, 2), (3, 4, 5), (6, 7, 8),
      (0, 3, 6), (1, 4, 7), (2, 5, 8),
      (0, 4, 8), (2, 4, 6)]"

text \<open>
  The test of one line, \<open>board[a] != '' and board[a] == board[b] == board[c]\<close>, reads
  the cells from left to right and stops at the first comparison that fails.
\<close>

definition line_test :: "board \<Rightarrow> nat \<Rightarrow> nat \<Rightarrow> nat \<Rightarrow> error + bool" where
  "line_test board a b c =
     and_then (getitem board a) (\<lambda>x.
       if x = [] then Inr False
       else and_then (getitem board b) (\<lambda>y.
         if x \<noteq> y then Inr False
         else and_then (getitem board c) (\<lambda>z. Inr (y = z))))"

text \<open>The loop of \<open>check_winner\<close> over the lines: the mark it returns, if it returns.\<close>

fun scan_lines :: "board \<Rightarrow> (nat \<times> nat \<times> nat) list \<Rightarrow> error + string option" where
  "scan_lines board [] = Inr None"
| "scan_lines board ((a, b, c) # rest) =
     and_then (line_test board a b c) (\<lambda>hit.
       if hit then and_then (getitem board a) (\<lambda>x. Inr (Some x))
       else scan_lines board rest)"

text \<open>
  \<open>check_winner\<close> returns a string (a mark or \<open>'Draw'\<close>) or None.
\<close>

definition check_winner :: "board \<Rightarrow> error + string option" where
  "check_winner board =
     and_then (scan_lines board WINNING_LINES) (\<lambda>found.
       case found of
         Some w \<Rightarrow> Inr (Some w)
       | None \<Rightarrow> if [] \<notin> set board then Inr (Some ''Draw'') else Inr None)"

definition available_moves :: "board \<Rightarrow> nat list" where
  "available_moves board = [i \<leftarrow> [0..<length board]. board ! i = []]"

text \<open>
  The two loops of \<open>minimax_cached\<close>. The local list \<open>board\<close> is written before the
  recursive call and written back after it; the loop hands the list on and returns it
  with the value and the best move. \<open>rec\<close> is the recursive call.
\<close>

fun max_loop ::
  "(board \<Rightarrow> string \<Rightarrow> string \<Rightarrow> bool \<Rightarrow> int \<Rightarrow> int \<Rightarrow> error + outcome) \<Rightarrow>
     string \<Rightarrow> string \<Rightarrow> nat list \<Rightarrow> board \<Rightarrow> int \<Rightarrow> nat option \<Rightarrow> int \<Rightarrow> int \<Rightarrow>
     error + (outcome \<times> board)" where
  "max_loop rec ai_player human_player [] board value best_move alpha beta =
     Inr ((value, best_move), board)"
| "max_loop rec ai_player human_player (m # ms) board value best_move alpha beta =
     and_then (setitem board m ai_player) (\<lambda>board1.
     and_then (rec board1 ai_player human_player False alpha beta) (\<lambda>(score, _).
     and_then (setitem board1 m []) (\<lambda>board2.
       let (value', best_move') =
             (if score > value then (score, Some m) else (value, best_move));
           alpha' = max alpha value'
       in if alpha' \<ge> beta then Inr ((value', best_move'), board2)
          else max_loop rec ai_player human_player ms board2 value' best_move' alpha' beta)))"

fun min_loop ::
  "(board \<Rightarrow> string \<Rightarrow> string \<Rightarrow> bool \<Rightarrow> int \<Rightarrow> int \<Rightarrow> error + outcome) \<Rightarrow>
     string \<Rightarrow> string \<Rightarrow> nat list \<Rightarrow> board \<Rightarrow> int \<Rightarrow> nat option \<Rightarrow> int \<Rightarrow> int \<Rightarrow>
     error + (outcome \<times> board)" where
  "min_loop rec ai_player human_player [] board value best_move alpha beta =
     Inr ((value, best_move), board)"
| "min_loop rec ai_player human_player (m # ms) board value best_move alpha beta =
     and_then (setitem board m human_player) (\<lambda>board1.
     and_then (rec board1 ai_player human_player True alpha beta) (\<lambda>(score, _).
     and_then (setitem board1 m []) (\<lambda>board2.
       let (value', best_move') =
             (if score < value then (score, Some m) else (value, best_move));
           beta' = min beta value'
       in if alpha \<ge> beta' then Inr ((value', best_move'), board2)
          else min_loop rec ai_player human_player ms board2 value' best_move' alpha beta')))"

text \<open>
  \<open>minimax_cached\<close>, with the depth of recursion the interpreter still allows as first
  argument: at depth 0 the call raises RecursionError. This is the function without
  the cache that \<open>lru_cache\<close> puts in front of it; the function with the cache and
  the list objects is \<open>minimax_cached_obj\<close> below, and the lemmas
  \<open>minimax_cached_obj_sound\<close> and \<open>minimax_cached_obj_complete\<close> show that the
  cache changes no result.
\<close>

primrec minimax_cached ::
  "nat \<Rightarrow> board \<Rightarrow> string \<Rightarrow> string \<Rightarrow> bool \<Rightarrow> int \<Rightarrow> int \<Rightarrow> error + outcome" where
  "minimax_cached 0 = (\<lambda>board_key ai_player human_player maximizing alpha beta.
     Inl RecursionError)"
| "minimax_cached (Suc depth) = (\<lambda>board_key ai_player human_player maximizing alpha beta.
     and_then (check_winner board_key) (\<lambda>result.
       if result = Some ai_player then Inr (1, None)
       else if result = Some human_player then Inr (- 1, None)
       else if result = Some ''Draw'' then Inr (0, None)
       else if maximizing then
         and_then (max_loop (minimax_cached depth) ai_player human_player
                     (available_moves board_key) board_key (- 999) None alpha beta)
           (\<lambda>(res, _). Inr res)
       else
         and_then (min_loop (minimax_cached depth) ai_player human_player
                     (available_moves board_key) board_key 999 None alpha beta)
           (\<lambda>(res, _). Inr res)))"

definition ai_move :: "nat \<Rightarrow> board \<Rightarrow> string \<Rightarrow> string \<Rightarrow> error + nat option" where
  "ai_move depth board ai_player human_player =
     and_then (minimax_cached depth board ai_player human_player True (- 999) 999)
       (\<lambda>(score, move). Inr move)"

text \<open>
  The specification's reading of a winning line: the three cells are equal and not empty.
\<close>

definition three_in_row :: "board \<Rightarrow> nat \<times> nat \<times> nat \<Rightarrow> bool" where
  "three_in_row board l =
     (case l of (a, b, c) \<Rightarrow> board ! a \<noteq> [] \<and> board ! a = board ! b \<and> board ! b = board ! c)"

section \<open>An abstraction of the search, for computing on concrete boards\<close>

text \<open>
  A board over the empty string and two marks is a list of cells of three kinds. On such
  lists the search is written once more, without the error cases that a board of nine
  cells never reaches. Lemma \<open>minimax_cached_abstract\<close> below shows that the program's search
  agrees with it; the abstraction is used to compute results for every pair of marks at
  once.
\<close>

datatype cell = Blank | Ai | Hu

datatype verdict = Won cell | Drawn | Open

definition mark_of :: "string \<Rightarrow> string \<Rightarrow> cell \<Rightarrow> string" where
  "mark_of a h c = (case c of Blank \<Rightarrow> [] | Ai \<Rightarrow> a | Hu \<Rightarrow> h)"

definition concrete :: "string \<Rightarrow> string \<Rightarrow> cell list \<Rightarrow> board" where
  "concrete a h cs = map (mark_of a h) cs"

definition result_of :: "string \<Rightarrow> string \<Rightarrow> verdict \<Rightarrow> string option" where
  "result_of a h v = (case v of Won c \<Rightarrow> Some (mark_of a h c) | Drawn \<Rightarrow> Some ''Draw'' | Open \<Rightarrow> None)"

fun verdict9 :: "cell list \<Rightarrow> verdict" where
  "verdict9 [c0, c1, c2, c3, c4, c5, c6, c7, c8] =
     (if c0 \<noteq> Blank \<and> c0 = c1 \<and> c1 = c2 then Won c0
      else if c3 \<noteq> Blank \<and> c3 = c4 \<and> c4 = c5 then Won c3
      else if c6 \<noteq> Blank \<and> c6 = c7 \<and> c7 = c8 then Won c6
      else if c0 \<noteq> Blank \<and> c0 = c3 \<and> c3 = c6 then Won c0
      else if c1 \<noteq> Blank \<and> c1 = c4 \<and> c4 = c7 then Won c1
      else if c2 \<noteq> Blank \<and> c2 = c5 \<and> c5 = c8 then Won c2
      else if c0 \<noteq> Blank \<and> c0 = c4 \<and> c4 = c8 then Won c0
      else if c2 \<noteq> Blank \<and> c2 = c4 \<and> c4 = c6 then Won c2
      else if c0 = Blank \<or> c1 = Blank \<or> c2 = Blank \<or> c3 = Blank \<or> c4 = Blank \<or>
              c5 = Blank \<or> c6 = Blank \<or> c7 = Blank \<or> c8 = Blank then Open
      else Drawn)"
| "verdict9 _ = Open"

fun free_from :: "nat \<Rightarrow> cell list \<Rightarrow> nat list" where
  "free_from i [] = []"
| "free_from i (c # cs) = (if c = Blank then i # free_from (Suc i) cs else free_from (Suc i) cs)"

fun abs_max_loop ::
  "(cell list \<Rightarrow> bool \<Rightarrow> int \<Rightarrow> int \<Rightarrow> error + outcome) \<Rightarrow>
     nat list \<Rightarrow> cell list \<Rightarrow> int \<Rightarrow> nat option \<Rightarrow> int \<Rightarrow> int \<Rightarrow> error + outcome" where
  "abs_max_loop rec [] cs v bm al be = Inr (v, bm)"
| "abs_max_loop rec (m # ms) cs v bm al be =
     (case rec (cs[m := Ai]) False al be of
        Inl e \<Rightarrow> Inl e
      | Inr (s, _) \<Rightarrow>
          if s > v
          then (if max al s \<ge> be then Inr (s, Some m)
                else abs_max_loop rec ms cs s (Some m) (max al s) be)
          else (if max al v \<ge> be then Inr (v, bm)
                else abs_max_loop rec ms cs v bm (max al v) be))"

fun abs_min_loop ::
  "(cell list \<Rightarrow> bool \<Rightarrow> int \<Rightarrow> int \<Rightarrow> error + outcome) \<Rightarrow>
     nat list \<Rightarrow> cell list \<Rightarrow> int \<Rightarrow> nat option \<Rightarrow> int \<Rightarrow> int \<Rightarrow> error + outcome" where
  "abs_min_loop rec [] cs v bm al be = Inr (v, bm)"
| "abs_min_loop rec (m # ms) cs v bm al be =
     (case rec (cs[m := Hu]) True al be of
        Inl e \<Rightarrow> Inl e
      | Inr (s, _) \<Rightarrow>
          if s < v
          then (if al \<ge> min be s then Inr (s, Some m)
                else abs_min_loop rec ms cs s (Some m) al (min be s))
          else (if al \<ge> min be v then Inr (v, bm)
                else abs_min_loop rec ms cs v bm al (min be v)))"

primrec abs_minimax :: "nat \<Rightarrow> cell list \<Rightarrow> bool \<Rightarrow> int \<Rightarrow> int \<Rightarrow> error + outcome" where
  "abs_minimax 0 = (\<lambda>cs mx al be. Inl RecursionError)"
| "abs_minimax (Suc d) = (\<lambda>cs mx al be.
     case verdict9 cs of
       Won c \<Rightarrow> (if c = Ai then Inr (1, None) else Inr (- 1, None))
     | Drawn \<Rightarrow> Inr (0, None)
     | Open \<Rightarrow>
         if mx then abs_max_loop (abs_minimax d) (free_from 0 cs) cs (- 999) None al be
         else abs_min_loop (abs_minimax d) (free_from 0 cs) cs 999 None al be)"

text \<open>
  The marks the orchestrator hands to the search: two different strings, neither empty
  nor equal to the string \<open>'Draw'\<close> that \<open>check_winner\<close> returns for a full board.
  (In \<open>play\<close> they are \<open>'X'\<close> and \<open>'O'\<close>.)
\<close>

definition valid_marks :: "string \<Rightarrow> string \<Rightarrow> bool" where
  "valid_marks a h \<longleftrightarrow> a \<noteq> [] \<and> h \<noteq> [] \<and> a \<noteq> h \<and> a \<noteq> ''Draw'' \<and> h \<noteq> ''Draw''"

section \<open>The game loop with the search on both sides\<close>

text \<open>
  The loop of \<open>play\<close>, with both turns taken by the branch of the AI: \<open>check_winner\<close>
  ends the game; otherwise the player to move asks \<open>ai_move\<close> with its own mark as
  \<open>ai_player\<close> and the other mark as \<open>human_player\<close>, falls back to the first
  available cell if the answer is None, and writes its mark. The first argument bounds
  the number of turns: None says that the loop has not ended within it.
\<close>

fun self_play :: "nat \<Rightarrow> nat \<Rightarrow> board \<Rightarrow> string \<Rightarrow> string \<Rightarrow> (error + string) option" where
  "self_play 0 depth board player other = None"
| "self_play (Suc turns) depth board player other =
     (case check_winner board of
        Inl e \<Rightarrow> Some (Inl e)
      | Inr (Some result) \<Rightarrow> Some (Inr result)
      | Inr None \<Rightarrow>
          (case and_then (ai_move depth board player other) (\<lambda>mv.
                  and_then (case mv of
                              None \<Rightarrow> getitem (available_moves board) 0
                            | Some m \<Rightarrow> Inr m) (\<lambda>m.
                  setitem board m player)) of
             Inl e \<Rightarrow> Some (Inl e)
           | Inr board' \<Rightarrow> self_play turns depth board' other player))"

text \<open>The same board seen by the other player.\<close>

fun flip :: "cell \<Rightarrow> cell" where
  "flip Blank = Blank"
| "flip Ai = Hu"
| "flip Hu = Ai"

section \<open>The children a loop explores\<close>

text \<open>
  The two loops once more, returning the list of the positions tried with the score of
  each, in the order of the loop: what the loop has explored when it ends, by exhausting
  the moves or by the \<open>break\<close>. A step that raises ends the list.
\<close>

fun max_explored ::
  "(board \<Rightarrow> string \<Rightarrow> string \<Rightarrow> bool \<Rightarrow> int \<Rightarrow> int \<Rightarrow> error + outcome) \<Rightarrow>
     string \<Rightarrow> string \<Rightarrow> nat list \<Rightarrow> board \<Rightarrow> int \<Rightarrow> int \<Rightarrow> int \<Rightarrow> (nat \<times> int) list" where
  "max_explored rec ai_player human_player [] board value alpha beta = []"
| "max_explored rec ai_player human_player (m # ms) board value alpha beta =
     (case and_then (setitem board m ai_player) (\<lambda>board1.
           and_then (rec board1 ai_player human_player False alpha beta) (\<lambda>(score, _).
           and_then (setitem board1 m []) (\<lambda>board2. Inr (score, board2)))) of
        Inl e \<Rightarrow> []
      | Inr (score, board2) \<Rightarrow>
          let value' = (if score > value then score else value);
              alpha' = max alpha value'
          in (m, score) #
             (if alpha' \<ge> beta then []
              else max_explored rec ai_player human_player ms board2 value' alpha' beta))"

fun min_explored ::
  "(board \<Rightarrow> string \<Rightarrow> string \<Rightarrow> bool \<Rightarrow> int \<Rightarrow> int \<Rightarrow> error + outcome) \<Rightarrow>
     string \<Rightarrow> string \<Rightarrow> nat list \<Rightarrow> board \<Rightarrow> int \<Rightarrow> int \<Rightarrow> int \<Rightarrow> (nat \<times> int) list" where
  "min_explored rec ai_player human_player [] board value alpha beta = []"
| "min_explored rec ai_player human_player (m # ms) board value alpha beta =
     (case and_then (setitem board m human_player) (\<lambda>board1.
           and_then (rec board1 ai_player human_player True alpha beta) (\<lambda>(score, _).
           and_then (setitem board1 m []) (\<lambda>board2. Inr (score, board2)))) of
        Inl e \<Rightarrow> []
      | Inr (score, board2) \<Rightarrow>
          let value' = (if score < value then score else value);
              beta' = min beta value'
          in (m, score) #
             (if alpha \<ge> beta' then []
              else min_explored rec ai_player human_player ms board2 value' alpha beta'))"

section \<open>The program with its objects: the lists it writes and the cache\<close>

text \<open>
  Python passes lists by reference, and \<open>lru_cache\<close> keeps a dictionary between calls.
  Here the program is written once more over a store: the list objects by address, the
  next free address, and the dictionary of the cache, whose key is the tuple of all six
  arguments of \<open>minimax_cached\<close>. \<open>tuple(board)\<close> reads the list at an address,
  \<open>list(board_key)\<close> makes a new list object, \<open>board[m] = v\<close> writes the object in
  place. A call that raises leaves the store as it was at that moment and caches
  nothing.
\<close>

type_synonym key = "board \<times> string \<times> string \<times> bool \<times> int \<times> int"

record store =
  lists :: "nat \<Rightarrow> string list option"
  fresh :: nat
  memo :: "key \<Rightarrow> outcome option"

definition deref :: "store \<Rightarrow> nat \<Rightarrow> string list" where
  "deref s p = (case lists s p of Some xs \<Rightarrow> xs | None \<Rightarrow> [])"

definition new_list :: "string list \<Rightarrow> store \<Rightarrow> nat \<times> store" where
  "new_list xs s = (fresh s, s\<lparr>lists := (lists s)(fresh s \<mapsto> xs), fresh := Suc (fresh s)\<rparr>)"

definition store_item :: "nat \<Rightarrow> nat \<Rightarrow> string \<Rightarrow> store \<Rightarrow> error + store" where
  "store_item p i v s =
     and_then (setitem (deref s p) i v) (\<lambda>xs. Inr (s\<lparr>lists := (lists s)(p \<mapsto> xs)\<rparr>))"

fun max_loop_obj ::
  "(board \<Rightarrow> string \<Rightarrow> string \<Rightarrow> bool \<Rightarrow> int \<Rightarrow> int \<Rightarrow> store \<Rightarrow> (error + outcome) \<times> store) \<Rightarrow>
     string \<Rightarrow> string \<Rightarrow> nat list \<Rightarrow> nat \<Rightarrow> int \<Rightarrow> nat option \<Rightarrow> int \<Rightarrow> int \<Rightarrow> store \<Rightarrow>
     (error + outcome) \<times> store" where
  "max_loop_obj rec ai_player human_player [] board value best_move alpha beta s =
     (Inr (value, best_move), s)"
| "max_loop_obj rec ai_player human_player (m # ms) board value best_move alpha beta s =
     (case store_item board m ai_player s of
        Inl e \<Rightarrow> (Inl e, s)
      | Inr s1 \<Rightarrow>
          (case rec (deref s1 board) ai_player human_player False alpha beta s1 of
             (Inl e, s2) \<Rightarrow> (Inl e, s2)
           | (Inr (score, _), s2) \<Rightarrow>
               (case store_item board m [] s2 of
                  Inl e \<Rightarrow> (Inl e, s2)
                | Inr s3 \<Rightarrow>
                    let (value', best_move') =
                          (if score > value then (score, Some m) else (value, best_move));
                        alpha' = max alpha value'
                    in if alpha' \<ge> beta then (Inr (value', best_move'), s3)
                       else max_loop_obj rec ai_player human_player ms board
                              value' best_move' alpha' beta s3)))"

fun min_loop_obj ::
  "(board \<Rightarrow> string \<Rightarrow> string \<Rightarrow> bool \<Rightarrow> int \<Rightarrow> int \<Rightarrow> store \<Rightarrow> (error + outcome) \<times> store) \<Rightarrow>
     string \<Rightarrow> string \<Rightarrow> nat list \<Rightarrow> nat \<Rightarrow> int \<Rightarrow> nat option \<Rightarrow> int \<Rightarrow> int \<Rightarrow> store \<Rightarrow>
     (error + outcome) \<times> store" where
  "min_loop_obj rec ai_player human_player [] board value best_move alpha beta s =
     (Inr (value, best_move), s)"
| "min_loop_obj rec ai_player human_player (m # ms) board value best_move alpha beta s =
     (case store_item board m human_player s of
        Inl e \<Rightarrow> (Inl e, s)
      | Inr s1 \<Rightarrow>
          (case rec (deref s1 board) ai_player human_player True alpha beta s1 of
             (Inl e, s2) \<Rightarrow> (Inl e, s2)
           | (Inr (score, _), s2) \<Rightarrow>
               (case store_item board m [] s2 of
                  Inl e \<Rightarrow> (Inl e, s2)
                | Inr s3 \<Rightarrow>
                    let (value', best_move') =
                          (if score < value then (score, Some m) else (value, best_move));
                        beta' = min beta value'
                    in if alpha \<ge> beta' then (Inr (value', best_move'), s3)
                       else min_loop_obj rec ai_player human_player ms board
                              value' best_move' alpha beta' s3)))"

text \<open>The body of \<open>minimax_cached\<close>: what runs when the cache has no entry for the call.\<close>

definition minimax_body ::
  "(board \<Rightarrow> string \<Rightarrow> string \<Rightarrow> bool \<Rightarrow> int \<Rightarrow> int \<Rightarrow> store \<Rightarrow> (error + outcome) \<times> store) \<Rightarrow>
     board \<Rightarrow> string \<Rightarrow> string \<Rightarrow> bool \<Rightarrow> int \<Rightarrow> int \<Rightarrow> store \<Rightarrow> (error + outcome) \<times> store" where
  "minimax_body rec board_key ai_player human_player maximizing alpha beta s =
     (case new_list board_key s of (board, s1) \<Rightarrow>
        (case check_winner (deref s1 board) of
           Inl e \<Rightarrow> (Inl e, s1)
         | Inr result \<Rightarrow>
             if result = Some ai_player then (Inr (1, None), s1)
             else if result = Some human_player then (Inr (- 1, None), s1)
             else if result = Some ''Draw'' then (Inr (0, None), s1)
             else if maximizing then
               max_loop_obj rec ai_player human_player (available_moves (deref s1 board))
                 board (- 999) None alpha beta s1
             else
               min_loop_obj rec ai_player human_player (available_moves (deref s1 board))
                 board 999 None alpha beta s1))"

text \<open>
  The cached function: a hit returns the stored result and touches nothing (it needs no
  recursion depth); a miss runs the body and stores the result under the six arguments.
\<close>

primrec minimax_cached_obj ::
  "nat \<Rightarrow> board \<Rightarrow> string \<Rightarrow> string \<Rightarrow> bool \<Rightarrow> int \<Rightarrow> int \<Rightarrow> store \<Rightarrow>
     (error + outcome) \<times> store" where
  "minimax_cached_obj 0 = (\<lambda>board_key ai_player human_player maximizing alpha beta s.
     case memo s (board_key, ai_player, human_player, maximizing, alpha, beta) of
       Some r \<Rightarrow> (Inr r, s)
     | None \<Rightarrow> (Inl RecursionError, s))"
| "minimax_cached_obj (Suc depth) = (\<lambda>board_key ai_player human_player maximizing alpha beta s.
     case memo s (board_key, ai_player, human_player, maximizing, alpha, beta) of
       Some r \<Rightarrow> (Inr r, s)
     | None \<Rightarrow>
         (case minimax_body (minimax_cached_obj depth)
                 board_key ai_player human_player maximizing alpha beta s of
            (Inl e, s') \<Rightarrow> (Inl e, s')
          | (Inr r, s') \<Rightarrow>
              (Inr r, s'\<lparr>memo := (memo s')
                 ((board_key, ai_player, human_player, maximizing, alpha, beta) \<mapsto> r)\<rparr>)))"

text \<open>\<open>ai_move\<close> gets the address of the caller's list.\<close>

definition ai_move_obj ::
  "nat \<Rightarrow> nat \<Rightarrow> string \<Rightarrow> string \<Rightarrow> store \<Rightarrow> (error + nat option) \<times> store" where
  "ai_move_obj depth board ai_player human_player s =
     (case minimax_cached_obj depth (deref s board) ai_player human_player True (- 999) 999 s of
        (Inl e, s') \<Rightarrow> (Inl e, s')
      | (Inr (score, move), s') \<Rightarrow> (Inr move, s'))"

text \<open>\<open>minimax_cached.cache_clear()\<close>, at the start of a game.\<close>

definition cache_clear :: "store \<Rightarrow> store" where
  "cache_clear s = s\<lparr>memo := (\<lambda>k. None)\<rparr>"

text \<open>
  What a call may not touch: the objects that exist in \<open>s\<close> are the same in \<open>s'\<close>.
\<close>

definition frame :: "store \<Rightarrow> store \<Rightarrow> bool" where
  "frame s s' \<longleftrightarrow> fresh s \<le> fresh s' \<and> (\<forall>q < fresh s. lists s' q = lists s q)"

text \<open>A cache whose entries are results of the function on the key's six arguments.\<close>

definition memo_ok :: "store \<Rightarrow> bool" where
  "memo_ok s \<longleftrightarrow>
     (\<forall>bk a h mx al be r. memo s (bk, a, h, mx, al, be) = Some r \<longrightarrow>
        (\<exists>n. minimax_cached n bk a h mx al be = Inr r))"

text \<open>The cache only grows: every entry of \<open>s\<close> is an entry of \<open>s'\<close>.\<close>

definition memo_kept :: "store \<Rightarrow> store \<Rightarrow> bool" where
  "memo_kept s s' \<longleftrightarrow> (\<forall>k r. memo s k = Some r \<longrightarrow> memo s' k = Some r)"

text \<open>The store of a process that has made no call yet.\<close>

definition empty_store :: store where
  "empty_store = \<lparr>lists = (\<lambda>p. None), fresh = 0, memo = (\<lambda>k. None)\<rparr>"

section \<open>The value of the game\<close>

text \<open>
  The game-theoretic value of a position, by exhaustive search without window and
  without pruning: 1 when the AI wins by force, -1 when the opponent does, 0 otherwise.
  On a board that is not terminal it is the greatest value of a child when the AI is to
  move and the least when the opponent is. The first argument bounds the depth as in
  \<open>minimax_cached\<close>.
\<close>

primrec game_value :: "nat \<Rightarrow> board \<Rightarrow> string \<Rightarrow> string \<Rightarrow> bool \<Rightarrow> int" where
  "game_value 0 = (\<lambda>board ai_player human_player maximizing. 0)"
| "game_value (Suc depth) = (\<lambda>board ai_player human_player maximizing.
     case check_winner board of
       Inl e \<Rightarrow> 0
     | Inr result \<Rightarrow>
         if result = Some ai_player then 1
         else if result = Some human_player then - 1
         else if result = Some ''Draw'' then 0
         else if available_moves board = [] then 0
         else if maximizing then
           Max ((\<lambda>m. game_value depth (board[m := ai_player]) ai_player human_player False)
                  ` set (available_moves board))
         else
           Min ((\<lambda>m. game_value depth (board[m := human_player]) ai_player human_player True)
                  ` set (available_moves board)))"

text \<open>
  What a score \<open>s\<close> returned for the window \<open>(alpha, beta)\<close> says about the value
  \<open>g\<close>: inside the window it is the value, at or below alpha it is an upper bound, at
  or above beta a lower bound.
\<close>

definition bounds :: "int \<Rightarrow> int \<Rightarrow> int \<Rightarrow> int \<Rightarrow> bool" where
  "bounds alpha beta s g \<longleftrightarrow>
     (s \<le> alpha \<longrightarrow> g \<le> s) \<and> (alpha < s \<and> s < beta \<longrightarrow> g = s) \<and> (beta \<le> s \<longrightarrow> s \<le> g)"

section \<open>The outcome evaluator\<close>

lemma and_then_Inr [simp]: "and_then (Inr x) f = f x"
  by (simp add: and_then_def)

lemma and_then_Inl [simp]: "and_then (Inl e) f = Inl e"
  by (simp add: and_then_def)

lemma getitem_in_range [simp]: "i < length xs \<Longrightarrow> getitem xs i = Inr (xs ! i)"
  by (simp add: getitem_def)

lemma setitem_in_range [simp]: "i < length xs \<Longrightarrow> setitem xs i v = Inr (xs[i := v])"
  by (simp add: setitem_def)

lemma line_test_in_range:
  assumes "a < length board" "b < length board" "c < length board"
  shows "line_test board a b c = Inr (three_in_row board (a, b, c))"
  using assms by (auto simp: line_test_def three_in_row_def)

lemma scan_lines_find:
  assumes "\<forall>(a, b, c) \<in> set ls. a < length board \<and> b < length board \<and> c < length board"
  shows "scan_lines board ls =
           Inr (map_option (\<lambda>l. board ! fst l) (find (three_in_row board) ls))"
  using assms
proof (induction ls)
  case Nil
  then show ?case by simp
next
  case (Cons l ls)
  obtain a b c where l: "l = (a, b, c)" by (cases l) auto
  with Cons.prems have r: "a < length board" "b < length board" "c < length board"
    by auto
  from Cons have ih: "scan_lines board ls =
      Inr (map_option (\<lambda>l. board ! fst l) (find (three_in_row board) ls))"
    by simp
  show ?case
    by (simp add: l line_test_in_range r ih)
qed

lemma lines_in_range: "\<forall>(a, b, c) \<in> set WINNING_LINES. a < 9 \<and> b < 9 \<and> c < 9"
  by (simp add: WINNING_LINES_def)

lemma check_winner_find:
  assumes "length board = 9"
  shows "check_winner board =
     (case find (three_in_row board) WINNING_LINES of
        Some l \<Rightarrow> Inr (Some (board ! fst l))
      | None \<Rightarrow> if [] \<in> set board then Inr None else Inr (Some ''Draw''))"
proof -
  have "scan_lines board WINNING_LINES =
      Inr (map_option (\<lambda>l. board ! fst l) (find (three_in_row board) WINNING_LINES))"
    using lines_in_range assms by (intro scan_lines_find) simp
  then show ?thesis
    by (auto simp: check_winner_def split: option.splits)
qed


text \<open>
  Claim C1. On a board of nine cells \<open>check_winner\<close> returns the mark of the first
  of the eight lines, in the declared order, whose three cells are equal and not empty;
  if no line is of that kind and no cell is empty it returns \<open>'Draw'\<close>; otherwise it
  returns None.
\<close>

theorem check_winner_spec:
  assumes "length board = 9"
  shows "((\<exists>l \<in> set WINNING_LINES. three_in_row board l) \<longrightarrow>
            (\<exists>a b c. find (three_in_row board) WINNING_LINES = Some (a, b, c) \<and>
                     three_in_row board (a, b, c) \<and>
                     check_winner board = Inr (Some (board ! a)))) \<and>
         ((\<forall>l \<in> set WINNING_LINES. \<not> three_in_row board l) \<and> [] \<notin> set board \<longrightarrow>
            check_winner board = Inr (Some ''Draw'')) \<and>
         ((\<forall>l \<in> set WINNING_LINES. \<not> three_in_row board l) \<and> [] \<in> set board \<longrightarrow>
            check_winner board = Inr None)"
proof (intro conjI impI)
  assume "\<exists>l \<in> set WINNING_LINES. three_in_row board l"
  then obtain l where "find (three_in_row board) WINNING_LINES = Some l"
    by (cases "find (three_in_row board) WINNING_LINES") (auto simp: find_None_iff)
  moreover obtain a b c where "l = (a, b, c)" by (cases l) auto
  ultimately have f: "find (three_in_row board) WINNING_LINES = Some (a, b, c)" by simp
  then have "three_in_row board (a, b, c)" by (auto simp: find_Some_iff)
  with f show "\<exists>a b c. find (three_in_row board) WINNING_LINES = Some (a, b, c) \<and>
      three_in_row board (a, b, c) \<and> check_winner board = Inr (Some (board ! a))"
    using check_winner_find [OF assms] by simp
next
  assume "(\<forall>l \<in> set WINNING_LINES. \<not> three_in_row board l) \<and> [] \<notin> set board"
  then have "find (three_in_row board) WINNING_LINES = None" "[] \<notin> set board"
    by (auto simp: find_None_iff)
  then show "check_winner board = Inr (Some ''Draw'')"
    using check_winner_find [OF assms] by simp
next
  assume "(\<forall>l \<in> set WINNING_LINES. \<not> three_in_row board l) \<and> [] \<in> set board"
  then have "find (three_in_row board) WINNING_LINES = None" "[] \<in> set board"
    by (auto simp: find_None_iff)
  then show "check_winner board = Inr None"
    using check_winner_find [OF assms] by simp
qed

theorem check_winner_spec_witness:
  "check_winner [''X'', ''X'', ''X'', ''O'', ''O'', [], [], [], []] = Inr (Some ''X'') \<and>
   check_winner [''X'', ''O'', ''X'', ''X'', ''O'', ''O'', ''O'', ''X'', ''X''] = Inr (Some ''Draw'') \<and>
   check_winner [''X'', ''O'', [], [], [], [], [], [], []] = Inr None"
proof (intro conjI)
  let ?b = "[''X'', ''X'', ''X'', ''O'', ''O'', [], [], [], []]"
  have "length ?b = 9" by simp
  from check_winner_spec [OF this]
  show "check_winner ?b = Inr (Some ''X'')"
    by (simp add: WINNING_LINES_def three_in_row_def)
next
  let ?b = "[''X'', ''O'', ''X'', ''X'', ''O'', ''O'', ''O'', ''X'', ''X'']"
  have "length ?b = 9" by simp
  from check_winner_spec [OF this]
  show "check_winner ?b = Inr (Some ''Draw'')"
    by (simp add: WINNING_LINES_def three_in_row_def)
next
  let ?b = "[''X'', ''O'', [], [], [], [], [], [], []]"
  have "length ?b = 9" by simp
  from check_winner_spec [OF this]
  show "check_winner ?b = Inr None"
    by (simp add: WINNING_LINES_def three_in_row_def)
qed

section \<open>The search: termination, range of values, valid moves\<close>

lemma available_moves_iff:
  "m \<in> set (available_moves board) \<longleftrightarrow> m < length board \<and> board ! m = []"
  by (auto simp: available_moves_def)

lemma undo_placement:
  "board ! m = [] \<Longrightarrow> board[m := []] = board"
  by (metis list_update_id)

lemma max_loop_result:
  assumes "\<forall>m \<in> set ms. m < length board \<and> board ! m = []"
      and "\<forall>m \<in> set ms. \<forall>al. \<exists>s mv. rec (board[m := a]) a h False al beta = Inr (s, mv) \<and> Q s"
  shows "\<exists>v bm. max_loop rec a h ms board val best alpha beta = Inr ((v, bm), board) \<and>
           ((v, bm) = (val, best) \<or> (\<exists>m \<in> set ms. bm = Some m \<and> val < v \<and> Q v))"
  using assms
proof (induction ms arbitrary: val best alpha)
  case Nil
  then show ?case by simp
next
  case (Cons m ms)
  from Cons.prems have m: "m < length board" "board ! m = []" by auto
  from Cons.prems obtain s mv where
    s: "rec (board[m := a]) a h False alpha beta = Inr (s, mv)" "Q s"
    by (meson list.set_intros(1))
  have rest: "\<forall>m \<in> set ms. m < length board \<and> board ! m = []"
    "\<forall>m \<in> set ms. \<forall>al. \<exists>s mv. rec (board[m := a]) a h False al beta = Inr (s, mv) \<and> Q s"
    using Cons.prems by auto
  show ?case
  proof (cases "s > val")
    case True
    from Cons.IH [OF rest, of s "Some m" "max alpha s"] obtain v bm where
      "max_loop rec a h ms board s (Some m) (max alpha s) beta = Inr ((v, bm), board)"
      "(v, bm) = (s, Some m) \<or> (\<exists>m \<in> set ms. bm = Some m \<and> s < v \<and> Q v)"
      by blast
    with True s m show ?thesis
      by (auto simp: undo_placement Let_def)
  next
    case False
    from Cons.IH [OF rest, of val best "max alpha val"] obtain v bm where
      "max_loop rec a h ms board val best (max alpha val) beta = Inr ((v, bm), board)"
      "(v, bm) = (val, best) \<or> (\<exists>m \<in> set ms. bm = Some m \<and> val < v \<and> Q v)"
      by blast
    with False s m show ?thesis
      by (auto simp: undo_placement Let_def)
  qed
qed

lemma min_loop_result:
  assumes "\<forall>m \<in> set ms. m < length board \<and> board ! m = []"
      and "\<forall>m \<in> set ms. \<forall>be. \<exists>s mv. rec (board[m := h]) a h True alpha be = Inr (s, mv) \<and> Q s"
  shows "\<exists>v bm. min_loop rec a h ms board val best alpha beta = Inr ((v, bm), board) \<and>
           ((v, bm) = (val, best) \<or> (\<exists>m \<in> set ms. bm = Some m \<and> v < val \<and> Q v))"
  using assms
proof (induction ms arbitrary: val best beta)
  case Nil
  then show ?case by simp
next
  case (Cons m ms)
  from Cons.prems have m: "m < length board" "board ! m = []" by auto
  from Cons.prems obtain s mv where
    s: "rec (board[m := h]) a h True alpha beta = Inr (s, mv)" "Q s"
    by (meson list.set_intros(1))
  have rest: "\<forall>m \<in> set ms. m < length board \<and> board ! m = []"
    "\<forall>m \<in> set ms. \<forall>be. \<exists>s mv. rec (board[m := h]) a h True alpha be = Inr (s, mv) \<and> Q s"
    using Cons.prems by auto
  show ?case
  proof (cases "s < val")
    case True
    from Cons.IH [OF rest, of s "Some m" "min beta s"] obtain v bm where
      "min_loop rec a h ms board s (Some m) alpha (min beta s) = Inr ((v, bm), board)"
      "(v, bm) = (s, Some m) \<or> (\<exists>m \<in> set ms. bm = Some m \<and> v < s \<and> Q v)"
      by blast
    with True s m show ?thesis
      by (auto simp: undo_placement Let_def)
  next
    case False
    from Cons.IH [OF rest, of val best "min beta val"] obtain v bm where
      "min_loop rec a h ms board val best alpha (min beta val) = Inr ((v, bm), board)"
      "(v, bm) = (val, best) \<or> (\<exists>m \<in> set ms. bm = Some m \<and> v < val \<and> Q v)"
      by blast
    with False s m show ?thesis
      by (auto simp: undo_placement Let_def)
  qed
qed


lemma max_loop_nonempty:
  assumes "\<forall>m \<in> set ms. m < length board \<and> board ! m = []"
      and "\<forall>m \<in> set ms. \<forall>al. \<exists>s mv. rec (board[m := a]) a h False al beta = Inr (s, mv) \<and> Q s"
      and "ms \<noteq> []" and "\<forall>s. Q s \<longrightarrow> val < s"
  shows "\<exists>v m. max_loop rec a h ms board val best alpha beta = Inr ((v, Some m), board) \<and>
           m \<in> set ms \<and> Q v"
proof -
  from assms(3) obtain m0 rest where ms: "ms = m0 # rest" by (cases ms) auto
  from assms(1) ms have m0: "m0 < length board" "board ! m0 = []" by auto
  from assms(2) ms obtain s mv where
    s: "rec (board[m0 := a]) a h False alpha beta = Inr (s, mv)" "Q s"
    by (meson list.set_intros(1))
  with assms(4) have gt: "val < s" by simp
  have "\<forall>m \<in> set rest. m < length board \<and> board ! m = []"
    "\<forall>m \<in> set rest. \<forall>al. \<exists>s mv. rec (board[m := a]) a h False al beta = Inr (s, mv) \<and> Q s"
    using assms(1,2) ms by auto
  from max_loop_result [where Q = Q and val = s and best = "Some m0" and alpha = "max alpha s"
      and rec = rec and a = a and h = h and beta = beta and ms = rest and board = board, OF this]
  obtain v bm where
    "max_loop rec a h rest board s (Some m0) (max alpha s) beta = Inr ((v, bm), board)"
    "(v, bm) = (s, Some m0) \<or> (\<exists>m \<in> set rest. bm = Some m \<and> s < v \<and> Q v)"
    by blast
  with gt s m0 show ?thesis
    unfolding ms by (auto simp: undo_placement Let_def)
qed

lemma min_loop_nonempty:
  assumes "\<forall>m \<in> set ms. m < length board \<and> board ! m = []"
      and "\<forall>m \<in> set ms. \<forall>be. \<exists>s mv. rec (board[m := h]) a h True alpha be = Inr (s, mv) \<and> Q s"
      and "ms \<noteq> []" and "\<forall>s. Q s \<longrightarrow> s < val"
  shows "\<exists>v m. min_loop rec a h ms board val best alpha beta = Inr ((v, Some m), board) \<and>
           m \<in> set ms \<and> Q v"
proof -
  from assms(3) obtain m0 rest where ms: "ms = m0 # rest" by (cases ms) auto
  from assms(1) ms have m0: "m0 < length board" "board ! m0 = []" by auto
  from assms(2) ms obtain s mv where
    s: "rec (board[m0 := h]) a h True alpha beta = Inr (s, mv)" "Q s"
    by (meson list.set_intros(1))
  with assms(4) have gt: "s < val" by simp
  have "\<forall>m \<in> set rest. m < length board \<and> board ! m = []"
    "\<forall>m \<in> set rest. \<forall>be. \<exists>s mv. rec (board[m := h]) a h True alpha be = Inr (s, mv) \<and> Q s"
    using assms(1,2) ms by auto
  from min_loop_result [where Q = Q and val = s and best = "Some m0" and beta = "min beta s"
      and rec = rec and a = a and h = h and alpha = alpha and ms = rest and board = board, OF this]
  obtain v bm where
    "min_loop rec a h rest board s (Some m0) alpha (min beta s) = Inr ((v, bm), board)"
    "(v, bm) = (s, Some m0) \<or> (\<exists>m \<in> set rest. bm = Some m \<and> v < s \<and> Q v)"
    by blast
  with gt s m0 show ?thesis
    unfolding ms by (auto simp: undo_placement Let_def)
qed

lemma count_empty_placement:
  "m < length board \<Longrightarrow> board ! m = [] \<Longrightarrow> v \<noteq> [] \<Longrightarrow>
     Suc (count_list (board[m := v]) []) = count_list board []"
proof (induction board arbitrary: m)
  case Nil
  then show ?case by simp
next
  case (Cons c cs)
  then show ?case by (cases m) auto
qed

lemma count_empty_le: "count_list board [] \<le> length board"
  by (rule count_le_length)

lemma check_winner_total:
  assumes "length board = 9"
  shows "\<exists>r. check_winner board = Inr r"
  using check_winner_find [OF assms] by (auto split: option.splits)

lemma check_winner_None_iff:
  assumes "length board = 9"
  shows "check_winner board = Inr None \<longleftrightarrow>
           find (three_in_row board) WINNING_LINES = None \<and> [] \<in> set board"
  using check_winner_find [OF assms] by (auto split: option.splits)

lemma check_winner_marks:
  assumes "length board = 9" and "set board \<subseteq> {[], a, h}"
      and "check_winner board = Inr (Some w)"
  shows "w = a \<or> w = h \<or> w = ''Draw''"
proof (cases "find (three_in_row board) WINNING_LINES")
  case None
  with assms show ?thesis
    using check_winner_find [of board] by (auto split: if_splits)
next
  case (Some l)
  then have l: "l \<in> set WINNING_LINES" "three_in_row board l"
    by (auto simp: find_Some_iff)
  then have "fst l < 9" using lines_in_range by auto
  with assms(1) have "board ! fst l \<in> set board" by simp
  moreover from l have "board ! fst l \<noteq> []" by (auto simp: three_in_row_def)
  moreover from Some assms have "w = board ! fst l"
    using check_winner_find [of board] by simp
  ultimately show ?thesis using assms(2) by auto
qed

lemma available_moves_nonempty:
  "[] \<in> set board \<Longrightarrow> available_moves board \<noteq> []"
proof -
  assume "[] \<in> set board"
  then obtain i where "i < length board" "board ! i = []"
    by (auto simp: in_set_conv_nth)
  then have "i \<in> set (available_moves board)"
    by (simp add: available_moves_iff)
  then show ?thesis by auto
qed

lemma minimax_returns:
  assumes "a \<noteq> []" "h \<noteq> []"
  shows "length board = 9 \<Longrightarrow> count_list board [] < depth \<Longrightarrow>
           \<exists>r. minimax_cached depth board a h mx alpha beta = Inr r"
proof (induction depth arbitrary: board mx alpha beta)
  case 0
  then show ?case by simp
next
  case (Suc d)
  from check_winner_total [OF Suc.prems(1)] obtain r where r: "check_winner board = Inr r" ..
  have moves: "\<forall>m \<in> set (available_moves board). m < length board \<and> board ! m = []"
    by (simp add: available_moves_iff)
  have child: "\<exists>s mv. minimax_cached d (board[m := v]) a h mx' al be = Inr (s, mv) \<and> True"
    if "m \<in> set (available_moves board)" "v \<noteq> []" for m v mx' al be
  proof -
    from that have "m < length board" "board ! m = []" by (auto simp: available_moves_iff)
    with that(2) have "Suc (count_list (board[m := v]) []) = count_list board []"
      by (simp add: count_empty_placement)
    with Suc.prems have "count_list (board[m := v]) [] < d" by simp
    moreover have "length (board[m := v]) = 9" using Suc.prems by simp
    ultimately obtain r' where "minimax_cached d (board[m := v]) a h mx' al be = Inr r'"
      using Suc.IH by blast
    then show ?thesis by (cases r') auto
  qed
  have mx_ok: "\<exists>v bm. max_loop (minimax_cached d) a h (available_moves board) board (- 999) None
      alpha beta = Inr ((v, bm), board)"
    using max_loop_result [where Q = "\<lambda>_. True" and rec = "minimax_cached d" and a = a and h = h
        and beta = beta and val = "- 999" and best = None and alpha = alpha]
      moves
      child assms by blast
  have mn_ok: "\<exists>v bm. min_loop (minimax_cached d) a h (available_moves board) board 999 None
      alpha beta = Inr ((v, bm), board)"
    using min_loop_result [where Q = "\<lambda>_. True" and rec = "minimax_cached d" and a = a and h = h
        and beta = beta and val = 999 and best = None and alpha = alpha]
      moves
      child assms by blast
  from mx_ok mn_ok r show ?case
    by auto
qed


lemma minimax_range:
  assumes "a \<noteq> []" "h \<noteq> []"
  shows "length board = 9 \<Longrightarrow> set board \<subseteq> {[], a, h} \<Longrightarrow> count_list board [] < depth \<Longrightarrow>
           \<exists>v bm. minimax_cached depth board a h mx alpha beta = Inr (v, bm) \<and>
             v \<in> {- 1, 0, 1} \<and>
             (check_winner board = Inr None \<longrightarrow>
                (\<exists>m. bm = Some m \<and> m \<in> set (available_moves board)))"
proof (induction depth arbitrary: board mx alpha beta)
  case 0
  then show ?case by simp
next
  case (Suc d)
  let ?Q = "\<lambda>s::int. s \<in> {- 1, 0, 1}"
  from check_winner_total [OF Suc.prems(1)] obtain r where r: "check_winner board = Inr r" ..
  show ?case
  proof (cases "r = None")
    case False
    then obtain w where w: "r = Some w" by auto
    with r Suc.prems have "w = a \<or> w = h \<or> w = ''Draw''"
      using check_winner_marks by blast
    with r w show ?thesis by auto
  next
    case True
    with r Suc.prems(1) have "[] \<in> set board"
      by (simp add: check_winner_None_iff)
    then have ne: "available_moves board \<noteq> []"
      by (rule available_moves_nonempty)
    have moves: "\<forall>m \<in> set (available_moves board). m < length board \<and> board ! m = []"
      by (simp add: available_moves_iff)
    have child: "\<exists>s mv. minimax_cached d (board[m := v]) a h mx' al be = Inr (s, mv) \<and> ?Q s"
      if "m \<in> set (available_moves board)" "v = a \<or> v = h" for m v mx' al be
    proof -
      from that assms have v: "v \<noteq> []" by auto
      from that have "m < length board" "board ! m = []" by (auto simp: available_moves_iff)
      with v have "Suc (count_list (board[m := v]) []) = count_list board []"
        by (simp add: count_empty_placement)
      with Suc.prems have "count_list (board[m := v]) [] < d" by simp
      moreover have "length (board[m := v]) = 9" using Suc.prems by simp
      moreover have "set (board[m := v]) \<subseteq> {[], a, h}"
        using set_update_subset_insert [of board m v] Suc.prems(2) that(2) by auto
      ultimately show ?thesis
        using Suc.IH [of "board[m := v]" mx' al be] by blast
    qed
    have bound: "\<forall>s. ?Q s \<longrightarrow> - 999 < s" "\<forall>s. ?Q s \<longrightarrow> s < 999" by auto
    have mx_ok: "\<exists>v m. max_loop (minimax_cached d) a h (available_moves board) board (- 999) None
        alpha beta = Inr ((v, Some m), board) \<and> m \<in> set (available_moves board) \<and> ?Q v"
      using max_loop_nonempty [where Q = ?Q and rec = "minimax_cached d" and a = a and h = h
          and beta = beta and val = "- 999" and best = None and alpha = alpha
          and ms = "available_moves board" and board = board]
        moves child ne bound(1) by blast
    have mn_ok: "\<exists>v m. min_loop (minimax_cached d) a h (available_moves board) board 999 None
        alpha beta = Inr ((v, Some m), board) \<and> m \<in> set (available_moves board) \<and> ?Q v"
      using min_loop_nonempty [where Q = ?Q and rec = "minimax_cached d" and a = a and h = h
          and beta = beta and val = 999 and best = None and alpha = alpha
          and ms = "available_moves board" and board = board]
        moves child ne bound(2) by blast
    from mx_ok mn_ok r True show ?thesis
      by auto
  qed
qed

text \<open>
  Claim C9. For marks that are not the empty string the search returns on every board of
  nine cells: the board has at most nine empty cells, every recursive call is made on a
  board with fewer empty cells than its caller's board, and a call returns a result
  (it raises neither RecursionError nor IndexError) as soon as the depth of recursion
  allowed is greater than the number of empty cells.
\<close>

theorem search_terminates:
  assumes "ai_player \<noteq> []" "human_player \<noteq> []" "length board = 9"
  shows "count_list board [] \<le> 9 \<and>
         (\<forall>m \<in> set (available_moves board).
            count_list (board[m := ai_player]) [] < count_list board [] \<and>
            count_list (board[m := human_player]) [] < count_list board []) \<and>
         (\<forall>depth > count_list board [].
            \<exists>r. minimax_cached depth board ai_player human_player maximizing alpha beta = Inr r)"
proof (intro conjI ballI allI impI)
  show "count_list board [] \<le> 9"
    using count_empty_le [of board] assms(3) by simp
next
  fix m assume "m \<in> set (available_moves board)"
  then have m: "m < length board" "board ! m = []" by (auto simp: available_moves_iff)
  from count_empty_placement [OF m assms(1)]
  show "count_list (board[m := ai_player]) [] < count_list board []" by simp
  from count_empty_placement [OF m assms(2)]
  show "count_list (board[m := human_player]) [] < count_list board []" by simp
next
  fix depth assume "count_list board [] < depth"
  with assms show "\<exists>r. minimax_cached depth board ai_player human_player maximizing alpha beta = Inr r"
    by (intro minimax_returns)
qed

theorem search_terminates_witness:
  "count_list (replicate 9 ([]::string)) [] \<le> 9 \<and>
   (\<exists>r. minimax_cached 10 (replicate 9 []) ''X'' ''O'' True (- 999) 999 = Inr r)"
proof -
  have "''X'' \<noteq> []" "''O'' \<noteq> []" "length (replicate 9 ([]::string)) = 9" by simp_all
  from search_terminates [OF this, of True "- 999" 999]
  have 1: "count_list (replicate 9 ([]::string)) [] \<le> 9"
    and 2: "\<forall>depth > count_list (replicate 9 ([]::string)) [].
            \<exists>r. minimax_cached depth (replicate 9 []) ''X'' ''O'' True (- 999) 999 = Inr r"
    by blast+
  have "count_list (replicate 9 ([]::string)) [] < 10"
    using 1 by simp
  with 1 2 show ?thesis by blast
qed

text \<open>
  Claim C10. On a board of nine cells over the empty string and the two marks, the value
  that \<open>minimax_cached\<close> returns is one of -1, 0 and 1, for either turn and for every
  window: the initial values -999 and 999 are never returned.
\<close>

theorem value_in_range:
  assumes "ai_player \<noteq> []" "human_player \<noteq> []" "ai_player \<noteq> human_player"
      and "length board = 9" "set board \<subseteq> {[], ai_player, human_player}"
      and "count_list board [] < depth"
  shows "\<exists>v m. minimax_cached depth board ai_player human_player maximizing alpha beta = Inr (v, m) \<and>
           v \<in> {- 1, 0, 1}"
  using minimax_range [OF assms(1,2,4,5,6), of maximizing alpha beta] by blast

theorem value_in_range_witness:
  "\<exists>v m. minimax_cached 7 [''X'', ''X'', [], ''O'', ''O'', [], [], [], []] ''X'' ''O'' False 5 (- 3)
      = Inr (v, m) \<and> v \<in> {- 1, 0, 1}"
  by (rule value_in_range) (simp_all)

text \<open>
  Claim C6. On a board that is not terminal \<open>ai_move\<close> returns a position between 0
  and 8 whose cell is empty; it returns None only on a board where \<open>check_winner\<close>
  gives a result already.
\<close>

theorem ai_move_valid:
  assumes "ai_player \<noteq> []" "human_player \<noteq> []"
      and "length board = 9" "set board \<subseteq> {[], ai_player, human_player}"
      and "count_list board [] < depth"
  shows "(check_winner board = Inr None \<longrightarrow>
            (\<exists>m. ai_move depth board ai_player human_player = Inr (Some m) \<and>
                 m < 9 \<and> board ! m = [])) \<and>
         (ai_move depth board ai_player human_player = Inr None \<longrightarrow>
            (\<exists>w. check_winner board = Inr (Some w)))"
proof -
  from minimax_range [OF assms, of True "- 999" 999] obtain v bm where
    r: "minimax_cached depth board ai_player human_player True (- 999) 999 = Inr (v, bm)"
    and m: "check_winner board = Inr None \<longrightarrow> (\<exists>m. bm = Some m \<and> m \<in> set (available_moves board))"
    by blast
  from check_winner_total [OF assms(3)] obtain w where w: "check_winner board = Inr w" ..
  from r have mv: "ai_move depth board ai_player human_player = Inr bm"
    by (simp add: ai_move_def)
  show ?thesis
  proof (cases w)
    case None
    with w m obtain p where "bm = Some p" "p \<in> set (available_moves board)" by auto
    with mv assms(3) None w show ?thesis by (auto simp: available_moves_iff)
  next
    case (Some x)
    with w show ?thesis by simp
  qed
qed

lemma won_board: "ai_move 10 [''X'', ''X'', ''X'', ''O'', ''O'', [], [], [], []] ''X'' ''O'' = Inr None"
  by code_simp

theorem ai_move_valid_witness:
  "check_winner [[], ''X'', [], ''O'', ''O'', [], [], [], []] = Inr None \<and>
   (\<exists>m. ai_move 10 [[], ''X'', [], ''O'', ''O'', [], [], [], []] ''X'' ''O'' = Inr (Some m) \<and>
        m < 9 \<and> [[], ''X'', [], ''O'', ''O'', [], [], [], []] ! m = []) \<and>
   ai_move 10 [''X'', ''X'', ''X'', ''O'', ''O'', [], [], [], []] ''X'' ''O'' = Inr None \<and>
   (\<exists>w. check_winner [''X'', ''X'', ''X'', ''O'', ''O'', [], [], [], []] = Inr (Some w))"
proof -
  let ?b = "[[], ''X'', [], ''O'', ''O'', [], [], [], []]"
  let ?t = "[''X'', ''X'', ''X'', ''O'', ''O'', [], [], [], []]"
  have n: "check_winner ?b = Inr None"
    by (simp add: check_winner_find WINNING_LINES_def three_in_row_def)
  have "''X'' \<noteq> []" "''O'' \<noteq> []" "length ?b = 9" "set ?b \<subseteq> {[], ''X'', ''O''}"
    "count_list ?b [] < 10" by simp_all
  note open_board = ai_move_valid [OF this]
  have "''X'' \<noteq> []" "''O'' \<noteq> []" "length ?t = 9" "set ?t \<subseteq> {[], ''X'', ''O''}"
    "count_list ?t [] < 10" by simp_all
  note won = ai_move_valid [OF this]
  from open_board n won won_board show ?thesis by blast
qed

text \<open>
  The marks must not be the empty string: writing the empty string changes nothing, the
  recursive call gets the board of its caller, and the search returns at no depth.
\<close>

lemma empty_mark_never_returns:
  "[] \<in> set board \<Longrightarrow> length board = 9 \<Longrightarrow> check_winner board = Inr None \<Longrightarrow>
     minimax_cached depth board [] [] mx alpha beta = Inl RecursionError"
proof (induction depth arbitrary: mx alpha beta)
  case 0
  then show ?case by simp
next
  case (Suc d)
  from Suc.prems(1) have "available_moves board \<noteq> []" by (rule available_moves_nonempty)
  then obtain m ms where ms: "available_moves board = m # ms" by (cases "available_moves board") auto
  then have "m \<in> set (available_moves board)" by simp
  then have m: "m < length board" "board ! m = []" by (auto simp: available_moves_iff)
  then have same: "board[m := []] = board" by (simp add: undo_placement)
  from Suc.IH [OF Suc.prems] have "\<And>mx al be. minimax_cached d board [] [] mx al be = Inl RecursionError" .
  with Suc.prems(3) ms m same show ?case
    by (cases mx) auto
qed

section \<open>A deeper recursion limit changes no result\<close>

lemma and_then_eq_Inr:
  "and_then r f = Inr y \<longleftrightarrow> (\<exists>x. r = Inr x \<and> f x = Inr y)"
  by (cases r) auto

lemma max_loop_mono:
  assumes "\<And>b mx al be r. rec b a h mx al be = Inr r \<Longrightarrow> rec' b a h mx al be = Inr r"
  shows "max_loop rec a h ms board val best alpha beta = Inr x \<Longrightarrow>
         max_loop rec' a h ms board val best alpha beta = Inr x"
proof (induction ms arbitrary: board val best alpha)
  case Nil
  then show ?case by simp
next
  case (Cons m ms)
  from Cons.prems obtain b1 s mv b2 where
    st: "setitem board m a = Inr b1" "rec b1 a h False alpha beta = Inr (s, mv)"
        "setitem b1 m [] = Inr b2"
    and rest: "(let (value', best_move') = (if s > val then (s, Some m) else (val, best));
                   alpha' = max alpha value'
               in if alpha' \<ge> beta then Inr ((value', best_move'), b2)
                  else max_loop rec a h ms b2 value' best_move' alpha' beta) = Inr x"
    by (auto simp: and_then_eq_Inr)
  from st(2) have "rec' b1 a h False alpha beta = Inr (s, mv)" by (rule assms)
  with st rest Cons.IH show ?case
    by (auto simp: Let_def split: if_splits)
qed

lemma min_loop_mono:
  assumes "\<And>b mx al be r. rec b a h mx al be = Inr r \<Longrightarrow> rec' b a h mx al be = Inr r"
  shows "min_loop rec a h ms board val best alpha beta = Inr x \<Longrightarrow>
         min_loop rec' a h ms board val best alpha beta = Inr x"
proof (induction ms arbitrary: board val best beta)
  case Nil
  then show ?case by simp
next
  case (Cons m ms)
  from Cons.prems obtain b1 s mv b2 where
    st: "setitem board m h = Inr b1" "rec b1 a h True alpha beta = Inr (s, mv)"
        "setitem b1 m [] = Inr b2"
    and rest: "(let (value', best_move') = (if s < val then (s, Some m) else (val, best));
                   beta' = min beta value'
               in if alpha \<ge> beta' then Inr ((value', best_move'), b2)
                  else min_loop rec a h ms b2 value' best_move' alpha beta') = Inr x"
    by (auto simp: and_then_eq_Inr)
  from st(2) have "rec' b1 a h True alpha beta = Inr (s, mv)" by (rule assms)
  with st rest Cons.IH show ?case
    by (auto simp: Let_def split: if_splits)
qed

lemma minimax_mono_Suc:
  "minimax_cached d b a h mx alpha beta = Inr r \<Longrightarrow>
   minimax_cached (Suc d) b a h mx alpha beta = Inr r"
proof (induction d arbitrary: b mx alpha beta r)
  case 0
  then show ?case by simp
next
  case (Suc d)
  have step: "\<And>b mx al be r. minimax_cached d b a h mx al be = Inr r \<Longrightarrow>
      minimax_cached (Suc d) b a h mx al be = Inr r"
    by (rule Suc.IH)
  from Suc.prems obtain res where res: "check_winner b = Inr res"
    by (auto simp: and_then_eq_Inr)
  show ?case
  proof (cases "res = Some a \<or> res = Some h \<or> res = Some ''Draw''")
    case True
    with res Suc.prems show ?thesis by auto
  next
    case False
    show ?thesis
    proof (cases mx)
      case True
      with False res Suc.prems obtain x where
        "max_loop (minimax_cached d) a h (available_moves b) b (- 999) None alpha beta = Inr x"
        "(case x of (res, _) \<Rightarrow> Inr res) = Inr r"
        by (auto simp: and_then_eq_Inr)
      moreover from this(1) have
        "max_loop (minimax_cached (Suc d)) a h (available_moves b) b (- 999) None alpha beta = Inr x"
        using step by (rule max_loop_mono [rotated])
      ultimately show ?thesis using False res True
        by (subst minimax_cached.simps) (auto simp del: minimax_cached.simps split: prod.splits)
    next
      case mn: False
      with False res Suc.prems obtain x where
        "min_loop (minimax_cached d) a h (available_moves b) b 999 None alpha beta = Inr x"
        "(case x of (res, _) \<Rightarrow> Inr res) = Inr r"
        by (auto simp: and_then_eq_Inr)
      moreover from this(1) have
        "min_loop (minimax_cached (Suc d)) a h (available_moves b) b 999 None alpha beta = Inr x"
        using step by (rule min_loop_mono [rotated])
      ultimately show ?thesis using False res mn
        by (subst minimax_cached.simps) (auto simp del: minimax_cached.simps split: prod.splits)
    qed
  qed
qed

lemma minimax_mono:
  "minimax_cached d b a h mx alpha beta = Inr r \<Longrightarrow> d \<le> d' \<Longrightarrow>
   minimax_cached d' b a h mx alpha beta = Inr r"
proof (induction "d' - d" arbitrary: d')
  case 0
  then show ?case by simp
next
  case (Suc k)
  then obtain e where e: "d' = Suc e" "d \<le> e" "k = e - d" by (cases d') auto
  with Suc have "minimax_cached e b a h mx alpha beta = Inr r" by blast
  then show ?case unfolding e(1) by (rule minimax_mono_Suc)
qed

section \<open>The program's search agrees with the abstraction\<close>

lemma mark_of_simps [simp]:
  "mark_of a h Blank = []" "mark_of a h Ai = a" "mark_of a h Hu = h"
  by (simp_all add: mark_of_def)

lemma mark_of_eq_Nil:
  "a \<noteq> [] \<Longrightarrow> h \<noteq> [] \<Longrightarrow> mark_of a h c = [] \<longleftrightarrow> c = Blank"
  by (cases c) auto

lemma mark_of_inj:
  "a \<noteq> [] \<Longrightarrow> h \<noteq> [] \<Longrightarrow> a \<noteq> h \<Longrightarrow> mark_of a h c = mark_of a h c' \<longleftrightarrow> c = c'"
  by (cases c; cases c') auto

lemma length9_cases:
  assumes "length cs = 9"
  obtains c0 c1 c2 c3 c4 c5 c6 c7 c8 where "cs = [c0, c1, c2, c3, c4, c5, c6, c7, c8]"
proof -
  from assms have "cs = map (\<lambda>i. cs ! i) [0..<9]"
    by (metis map_nth)
  also have "[0..<9] = [0, 1, 2, 3, 4, 5, 6, 7, 8::nat]"
    by (simp add: upt_rec)
  finally show ?thesis using that by simp
qed

lemma case_option_if:
  "case_option n f (if c then x else y) = (if c then case_option n f x else case_option n f y)"
  by simp

lemma check_winner_abstract:
  assumes "a \<noteq> []" "h \<noteq> []" "a \<noteq> h" "length cs = 9"
  shows "check_winner (concrete a h cs) = Inr (result_of a h (verdict9 cs))"
proof -
  from assms(4) obtain c0 c1 c2 c3 c4 c5 c6 c7 c8
    where cs: "cs = [c0, c1, c2, c3, c4, c5, c6, c7, c8]" by (rule length9_cases)
  have len: "length (concrete a h cs) = 9" using assms(4) by (simp add: concrete_def)
  have nil: "\<And>c. [] = mark_of a h c \<longleftrightarrow> c = Blank"
    using mark_of_eq_Nil [OF assms(1,2)] by metis
  show ?thesis
    unfolding check_winner_find [OF len]
    by (simp add: cs concrete_def WINNING_LINES_def three_in_row_def result_of_def nil
        mark_of_eq_Nil [OF assms(1,2)] mark_of_inj [OF assms(1,2,3)] case_option_if
        if_distrib [where f = "case_verdict w d' opn" for w d' opn] if_distrib [where f = Inr]
        split del: if_split
        cong del: if_weak_cong option.case_cong_weak verdict.case_cong_weak)
qed

lemma verdict9_Won: "verdict9 cs = Won c \<Longrightarrow> c \<noteq> Blank"
  by (induction cs rule: verdict9.induct) (auto split: if_splits)


lemma free_from_filter:
  "free_from i cs = map (\<lambda>j. i + j) [j \<leftarrow> [0..<length cs]. cs ! j = Blank]"
proof (induction cs arbitrary: i)
  case Nil
  then show ?case by simp
next
  case (Cons c cs)
  have "[0..<length (c # cs)] = 0 # map Suc [0..<length cs]"
    by (simp add: upt_conv_Cons map_Suc_upt del: upt_Suc)
  then show ?case
    by (simp add: Cons.IH [of "Suc i"] filter_map comp_def del: upt_Suc)
qed

lemma available_moves_abstract:
  assumes "a \<noteq> []" "h \<noteq> []"
  shows "available_moves (concrete a h cs) = free_from 0 cs"
proof -
  have "[i \<leftarrow> [0..<length cs]. map (mark_of a h) cs ! i = []] =
        [i \<leftarrow> [0..<length cs]. cs ! i = Blank]"
    by (rule filter_cong) (auto simp: mark_of_eq_Nil [OF assms])
  then show ?thesis
    by (simp add: available_moves_def concrete_def free_from_filter)
qed

lemma free_from_valid: "m \<in> set (free_from 0 cs) \<Longrightarrow> m < length cs \<and> cs ! m = Blank"
  by (auto simp: free_from_filter)

lemma concrete_update: "concrete a h (cs[m := c]) = (concrete a h cs)[m := mark_of a h c]"
  by (simp add: concrete_def map_update)

lemma max_loop_abstract:
  assumes "\<And>cs' mx al be. length cs' = 9 \<Longrightarrow>
             rec (concrete a h cs') a h mx al be = rec' cs' mx al be"
      and "length cs = 9"
  shows "\<forall>m \<in> set ms. m < length cs \<and> cs ! m = Blank \<Longrightarrow>
         max_loop rec a h ms (concrete a h cs) v bm al be =
           and_then (abs_max_loop rec' ms cs v bm al be) (\<lambda>r. Inr (r, concrete a h cs))"
proof (induction ms arbitrary: v bm al)
  case Nil
  then show ?case by simp
next
  case (Cons m ms)
  then have m: "m < length cs" "cs ! m = Blank" by auto
  have undo: "(concrete a h cs)[m := []] = concrete a h cs"
    using m by (simp add: concrete_def list_update_same_conv)
  have call: "rec ((concrete a h cs)[m := a]) a h False al be = rec' (cs[m := Ai]) False al be"
    using assms(1) [of "cs[m := Ai]" False al be] assms(2) by (simp add: concrete_update)
  have len: "m < length (concrete a h cs)" using m by (simp add: concrete_def)
  from Cons have ih: "\<And>v bm al. max_loop rec a h ms (concrete a h cs) v bm al be =
      and_then (abs_max_loop rec' ms cs v bm al be) (\<lambda>r. Inr (r, concrete a h cs))"
    by simp
  show ?case
    by (cases "rec' (cs[m := Ai]) False al be")
       (auto simp: len call undo ih Let_def split: prod.splits)
qed

lemma min_loop_abstract:
  assumes "\<And>cs' mx al be. length cs' = 9 \<Longrightarrow>
             rec (concrete a h cs') a h mx al be = rec' cs' mx al be"
      and "length cs = 9"
  shows "\<forall>m \<in> set ms. m < length cs \<and> cs ! m = Blank \<Longrightarrow>
         min_loop rec a h ms (concrete a h cs) v bm al be =
           and_then (abs_min_loop rec' ms cs v bm al be) (\<lambda>r. Inr (r, concrete a h cs))"
proof (induction ms arbitrary: v bm be)
  case Nil
  then show ?case by simp
next
  case (Cons m ms)
  then have m: "m < length cs" "cs ! m = Blank" by auto
  have undo: "(concrete a h cs)[m := []] = concrete a h cs"
    using m by (simp add: concrete_def list_update_same_conv)
  have call: "rec ((concrete a h cs)[m := h]) a h True al be = rec' (cs[m := Hu]) True al be"
    using assms(1) [of "cs[m := Hu]" True al be] assms(2) by (simp add: concrete_update)
  have len: "m < length (concrete a h cs)" using m by (simp add: concrete_def)
  from Cons have ih: "\<And>v bm be. min_loop rec a h ms (concrete a h cs) v bm al be =
      and_then (abs_min_loop rec' ms cs v bm al be) (\<lambda>r. Inr (r, concrete a h cs))"
    by simp
  show ?case
    by (cases "rec' (cs[m := Hu]) True al be")
       (auto simp: len call undo ih Let_def split: prod.splits)
qed

lemma minimax_cached_abstract:
  assumes "valid_marks a h"
  shows "length cs = 9 \<Longrightarrow>
         minimax_cached d (concrete a h cs) a h mx al be = abs_minimax d cs mx al be"
proof (induction d arbitrary: cs mx al be)
  case 0
  then show ?case by simp
next
  case (Suc d)
  from assms have mk: "a \<noteq> []" "h \<noteq> []" "a \<noteq> h" "a \<noteq> ''Draw''" "h \<noteq> ''Draw''"
    by (simp_all add: valid_marks_def)
  have cw: "check_winner (concrete a h cs) = Inr (result_of a h (verdict9 cs))"
    using mk Suc.prems by (simp add: check_winner_abstract)
  have moves: "\<forall>m \<in> set (free_from 0 cs). m < length cs \<and> cs ! m = Blank"
    using free_from_valid by blast
  note mx_eq = max_loop_abstract [where rec = "minimax_cached d" and rec' = "abs_minimax d",
      OF Suc.IH Suc.prems moves]
  note mn_eq = min_loop_abstract [where rec = "minimax_cached d" and rec' = "abs_minimax d",
      OF Suc.IH Suc.prems moves]
  show ?case
  proof (cases "verdict9 cs")
    case (Won c)
    then have "c \<noteq> Blank" by (rule verdict9_Won)
    with Won cw mk show ?thesis
      by (cases c) (simp_all add: result_of_def)
  next
    case Drawn
    with cw mk show ?thesis by (simp add: result_of_def)
  next
    case Open
    show ?thesis
    proof (cases mx)
      case True
      with Open cw mk show ?thesis
        by (cases "abs_max_loop (abs_minimax d) (free_from 0 cs) cs (- 999) None al be")
           (simp_all add: result_of_def available_moves_abstract mx_eq)
    next
      case False
      with Open cw mk show ?thesis
        by (cases "abs_min_loop (abs_minimax d) (free_from 0 cs) cs 999 None al be")
           (simp_all add: result_of_def available_moves_abstract mn_eq)
    qed
  qed
qed

lemma valid_marks_sym: "valid_marks a h \<Longrightarrow> valid_marks h a"
  by (auto simp: valid_marks_def)

lemma concrete_flip: "concrete o' p (map flip cs) = concrete p o' cs"
proof -
  have "mark_of o' p (flip c) = mark_of p o' c" for c by (cases c) simp_all
  then show ?thesis by (simp add: concrete_def)
qed

lemma minimax_cached_compute:
  assumes "valid_marks a h" "length cs = 9"
      and "abs_minimax d cs mx al be = Inr r" "d \<le> depth"
  shows "minimax_cached depth (concrete a h cs) a h mx al be = Inr r"
proof -
  from assms(1,2,3) have "minimax_cached d (concrete a h cs) a h mx al be = Inr r"
    by (simp add: minimax_cached_abstract)
  then show ?thesis using assms(4) by (rule minimax_mono)
qed

section \<open>Alpha-beta search against the exhaustive game value\<close>

text \<open>The pruned search is fail-soft: inside the window the score it returns is the
  exhaustive game value, at or below \<open>alpha\<close> it is an upper bound of it, at or above
  \<open>beta\<close> a lower bound.\<close>

lemma max_loop_bounds:
  assumes "\<forall>m \<in> set ms. m < length board \<and> board ! m = []"
  shows "val \<le> alpha \<Longrightarrow> alpha < beta \<Longrightarrow>
         (\<forall>m \<in> set ms. \<forall>al. alpha \<le> al \<and> al < beta \<longrightarrow>
            (\<exists>s mv. rec (board[m := a]) a h False al beta = Inr (s, mv) \<and> bounds al beta s (gc m))) \<Longrightarrow>
         \<exists>v bm. max_loop rec a h ms board val best alpha beta = Inr ((v, bm), board) \<and>
           val \<le> v \<and>
           (v \<le> alpha \<longrightarrow> (\<forall>m \<in> set ms. gc m \<le> v)) \<and>
           (alpha < v \<and> v < beta \<longrightarrow> (\<forall>m \<in> set ms. gc m \<le> v) \<and> (\<exists>m \<in> set ms. gc m = v)) \<and>
           (beta \<le> v \<longrightarrow> (\<exists>m \<in> set ms. v \<le> gc m))"
  using assms
proof (induction ms arbitrary: val best alpha)
  case Nil
  then show ?case by auto
next
  case (Cons m0 rest)
  from Cons.prems(4) have m0: "m0 < length board" "board ! m0 = []" by auto
  from Cons.prems(1,2,3) obtain s mv where
    s: "rec (board[m0 := a]) a h False alpha beta = Inr (s, mv)" and b: "bounds alpha beta s (gc m0)"
    by (meson list.set_intros(1) order_refl)
  define val' best' where "val' = (if s > val then s else val)"
    and "best' = (if s > val then Some m0 else best)"
  have step: "max_loop rec a h (m0 # rest) board val best alpha beta =
      (if max alpha val' \<ge> beta then Inr ((val', best'), board)
       else max_loop rec a h rest board val' best' (max alpha val') beta)"
    using s m0 by (auto simp: undo_placement Let_def val'_def best'_def)
  show ?case
  proof (cases "max alpha val' \<ge> beta")
    case True
    with Cons.prems(1,2) have "val' = s" "beta \<le> s" by (auto simp: val'_def split: if_splits)
    with b have "s \<le> gc m0" by (simp add: bounds_def)
    with True step \<open>val' = s\<close> \<open>beta \<le> s\<close> Cons.prems(1,2) show ?thesis
      by (auto simp: val'_def split: if_splits)
  next
    case False
    then have lt: "max alpha val' < beta" using not_le by blast
    have le: "val' \<le> max alpha val'" by simp
    have kids: "\<forall>m \<in> set rest. \<forall>al. max alpha val' \<le> al \<and> al < beta \<longrightarrow>
            (\<exists>s mv. rec (board[m := a]) a h False al beta = Inr (s, mv) \<and> bounds al beta s (gc m))"
      using Cons.prems(3) by auto
    have valid: "\<forall>m \<in> set rest. m < length board \<and> board ! m = []"
      using Cons.prems(4) by auto
    from Cons.IH [OF le lt kids valid, of best'] obtain v bm where
      r: "max_loop rec a h rest board val' best' (max alpha val') beta = Inr ((v, bm), board)"
      and ge: "val' \<le> v"
      and A: "v \<le> max alpha val' \<longrightarrow> (\<forall>m \<in> set rest. gc m \<le> v)"
      and B: "max alpha val' < v \<and> v < beta \<longrightarrow>
                (\<forall>m \<in> set rest. gc m \<le> v) \<and> (\<exists>m \<in> set rest. gc m = v)"
      and C: "beta \<le> v \<longrightarrow> (\<exists>m \<in> set rest. v \<le> gc m)"
      by blast
    have sv: "s \<le> val'" "val \<le> val'" by (auto simp: val'_def)
    have 1: "val \<le> v" using ge sv by simp
    have 2: "\<forall>m \<in> set (m0 # rest). gc m \<le> v" if "v \<le> alpha"
    proof -
      from that ge sv have "s \<le> alpha" "s \<le> v" by auto
      with b have "gc m0 \<le> v" by (auto simp: bounds_def)
      moreover from that have "v \<le> max alpha val'" by simp
      ultimately show ?thesis using A by auto
    qed
    have 3: "(\<forall>m \<in> set (m0 # rest). gc m \<le> v) \<and> (\<exists>m \<in> set (m0 # rest). gc m = v)"
      if "alpha < v \<and> v < beta"
    proof (cases "v \<le> max alpha val'")
      case True
      with that ge have "v = val'" by auto
      with that Cons.prems(1) have "s = v" by (auto simp: val'_def split: if_splits)
      with that b have "gc m0 = v" by (auto simp: bounds_def)
      with A True show ?thesis by auto
    next
      case nle: False
      with that B have rest: "(\<forall>m \<in> set rest. gc m \<le> v)" "(\<exists>m \<in> set rest. gc m = v)" by auto
      from nle sv have "s < v" by auto
      with b lt sv have "gc m0 \<le> v"
        by (cases "s \<le> alpha") (auto simp: bounds_def)
      with rest show ?thesis by auto
    qed
    have 4: "\<exists>m \<in> set (m0 # rest). v \<le> gc m" if "beta \<le> v"
      using C that by auto
    from False step r 1 2 3 4 show ?thesis by auto
  qed
qed


lemma min_loop_bounds:
  assumes "\<forall>m \<in> set ms. m < length board \<and> board ! m = []"
  shows "beta \<le> val \<Longrightarrow> alpha < beta \<Longrightarrow>
         (\<forall>m \<in> set ms. \<forall>be. alpha < be \<and> be \<le> beta \<longrightarrow>
            (\<exists>s mv. rec (board[m := h]) a h True alpha be = Inr (s, mv) \<and> bounds alpha be s (gc m))) \<Longrightarrow>
         \<exists>v bm. min_loop rec a h ms board val best alpha beta = Inr ((v, bm), board) \<and>
           v \<le> val \<and>
           (beta \<le> v \<longrightarrow> (\<forall>m \<in> set ms. v \<le> gc m)) \<and>
           (alpha < v \<and> v < beta \<longrightarrow> (\<forall>m \<in> set ms. v \<le> gc m) \<and> (\<exists>m \<in> set ms. gc m = v)) \<and>
           (v \<le> alpha \<longrightarrow> (\<exists>m \<in> set ms. gc m \<le> v))"
  using assms
proof (induction ms arbitrary: val best beta)
  case Nil
  then show ?case by auto
next
  case (Cons m0 rest)
  from Cons.prems(4) have m0: "m0 < length board" "board ! m0 = []" by auto
  from Cons.prems(1,2,3) obtain s mv where
    s: "rec (board[m0 := h]) a h True alpha beta = Inr (s, mv)" and b: "bounds alpha beta s (gc m0)"
    by (meson list.set_intros(1) order_refl)
  define val' best' where "val' = (if s < val then s else val)"
    and "best' = (if s < val then Some m0 else best)"
  have step: "min_loop rec a h (m0 # rest) board val best alpha beta =
      (if alpha \<ge> min beta val' then Inr ((val', best'), board)
       else min_loop rec a h rest board val' best' alpha (min beta val'))"
    using s m0 by (auto simp: undo_placement Let_def val'_def best'_def)
  show ?case
  proof (cases "alpha \<ge> min beta val'")
    case True
    with Cons.prems(1,2) have "val' = s" "s \<le> alpha" by (auto simp: val'_def split: if_splits)
    with b have "gc m0 \<le> s" by (simp add: bounds_def)
    with True step \<open>val' = s\<close> \<open>s \<le> alpha\<close> Cons.prems(1,2) show ?thesis
      by (auto simp: val'_def split: if_splits)
  next
    case False
    then have lt: "alpha < min beta val'" using not_le by blast
    have le: "min beta val' \<le> val'" by simp
    have kids: "\<forall>m \<in> set rest. \<forall>be. alpha < be \<and> be \<le> min beta val' \<longrightarrow>
            (\<exists>s mv. rec (board[m := h]) a h True alpha be = Inr (s, mv) \<and> bounds alpha be s (gc m))"
      using Cons.prems(3) by auto
    have valid: "\<forall>m \<in> set rest. m < length board \<and> board ! m = []"
      using Cons.prems(4) by auto
    from Cons.IH [OF le lt kids valid, of best'] obtain v bm where
      r: "min_loop rec a h rest board val' best' alpha (min beta val') = Inr ((v, bm), board)"
      and ge: "v \<le> val'"
      and A: "min beta val' \<le> v \<longrightarrow> (\<forall>m \<in> set rest. v \<le> gc m)"
      and B: "alpha < v \<and> v < min beta val' \<longrightarrow>
                (\<forall>m \<in> set rest. v \<le> gc m) \<and> (\<exists>m \<in> set rest. gc m = v)"
      and C: "v \<le> alpha \<longrightarrow> (\<exists>m \<in> set rest. gc m \<le> v)"
      by blast
    have sv: "val' \<le> s" "val' \<le> val" by (auto simp: val'_def)
    have 1: "v \<le> val" using ge sv by simp
    have 2: "\<forall>m \<in> set (m0 # rest). v \<le> gc m" if "beta \<le> v"
    proof -
      from that ge sv have "beta \<le> s" "v \<le> s" by auto
      with b have "v \<le> gc m0" by (auto simp: bounds_def)
      moreover from that have "min beta val' \<le> v" by simp
      ultimately show ?thesis using A by auto
    qed
    have 3: "(\<forall>m \<in> set (m0 # rest). v \<le> gc m) \<and> (\<exists>m \<in> set (m0 # rest). gc m = v)"
      if "alpha < v \<and> v < beta"
    proof (cases "min beta val' \<le> v")
      case True
      with that ge have "v = val'" by auto
      with that Cons.prems(1) have "s = v" by (auto simp: val'_def split: if_splits)
      with that b have "gc m0 = v" by (auto simp: bounds_def)
      with A True show ?thesis by auto
    next
      case nle: False
      with that B have rest: "(\<forall>m \<in> set rest. v \<le> gc m)" "(\<exists>m \<in> set rest. gc m = v)" by auto
      from nle sv have "v < s" by auto
      with b that have "v \<le> gc m0"
        by (cases "beta \<le> s") (auto simp: bounds_def)
      with rest show ?thesis by auto
    qed
    have 4: "\<exists>m \<in> set (m0 # rest). gc m \<le> v" if "v \<le> alpha"
      using C that by auto
    from False step r 1 2 3 4 show ?thesis by auto
  qed
qed


lemma bounds_exact: "bounds al be s s"
  by (simp add: bounds_def)

lemma minimax_bounds:
  assumes "a \<noteq> []" "h \<noteq> []"
  shows "length board = 9 \<Longrightarrow> set board \<subseteq> {[], a, h} \<Longrightarrow> count_list board [] < d \<Longrightarrow>
         - 999 \<le> al \<Longrightarrow> al < be \<Longrightarrow> be \<le> 999 \<Longrightarrow>
         \<exists>s mv. minimax_cached d board a h mx al be = Inr (s, mv) \<and>
                bounds al be s (game_value d board a h mx)"
proof (induction d arbitrary: board mx al be)
  case 0
  then show ?case by simp
next
  case (Suc d)
  from check_winner_total [OF Suc.prems(1)] obtain r where r: "check_winner board = Inr r" ..
  show ?case
  proof (cases "r = None")
    case False
    then obtain w where w: "r = Some w" by auto
    with r Suc.prems have "w = a \<or> w = h \<or> w = ''Draw''"
      using check_winner_marks by blast
    with r w show ?thesis by (auto simp: bounds_exact)
  next
    case True
    let ?ms = "available_moves board"
    from True r Suc.prems(1) have "[] \<in> set board" by (simp add: check_winner_None_iff)
    then have ne: "?ms \<noteq> []" by (rule available_moves_nonempty)
    have moves: "\<forall>m \<in> set ?ms. m < length board \<and> board ! m = []"
      by (simp add: available_moves_iff)
    have child: "\<exists>s mv. minimax_cached d (board[m := v]) a h mx' al' be' = Inr (s, mv) \<and>
                   bounds al' be' s (game_value d (board[m := v]) a h mx')"
      if "m \<in> set ?ms" "v = a \<or> v = h" "- 999 \<le> al'" "al' < be'" "be' \<le> 999"
      for m v mx' al' be'
    proof -
      from that assms have v: "v \<noteq> []" by auto
      from that have "m < length board" "board ! m = []" by (auto simp: available_moves_iff)
      with v have "Suc (count_list (board[m := v]) []) = count_list board []"
        by (simp add: count_empty_placement)
      with Suc.prems have "count_list (board[m := v]) [] < d" by simp
      moreover have "length (board[m := v]) = 9" using Suc.prems by simp
      moreover have "set (board[m := v]) \<subseteq> {[], a, h}"
        using set_update_subset_insert [of board m v] Suc.prems(2) that(2) by auto
      ultimately show ?thesis
        using Suc.IH [of "board[m := v]" al' be' mx'] that(3,4,5) by blast
    qed
    show ?thesis
    proof (cases mx)
      case mx: True
      let ?gc = "\<lambda>m. game_value d (board[m := a]) a h False"
      have kids: "\<forall>m \<in> set ?ms. \<forall>al'. al \<le> al' \<and> al' < be \<longrightarrow>
          (\<exists>s mv. minimax_cached d (board[m := a]) a h False al' be = Inr (s, mv) \<and>
                  bounds al' be s (?gc m))"
        using child Suc.prems(4,6) by auto
      from max_loop_bounds [where rec = "minimax_cached d" and gc = ?gc and val = "- 999"
          and best = None, OF moves Suc.prems(4,5) kids]
      obtain v bm where
        l: "max_loop (minimax_cached d) a h ?ms board (- 999) None al be = Inr ((v, bm), board)"
        and A: "v \<le> al \<longrightarrow> (\<forall>m \<in> set ?ms. ?gc m \<le> v)"
        and B: "al < v \<and> v < be \<longrightarrow> (\<forall>m \<in> set ?ms. ?gc m \<le> v) \<and> (\<exists>m \<in> set ?ms. ?gc m = v)"
        and C: "be \<le> v \<longrightarrow> (\<exists>m \<in> set ?ms. v \<le> ?gc m)"
        by blast
      have g: "game_value (Suc d) board a h mx = Max (?gc ` set ?ms)"
        using r True mx ne by simp
      have fin: "finite (?gc ` set ?ms)" "?gc ` set ?ms \<noteq> {}" using ne by auto
      have "bounds al be v (Max (?gc ` set ?ms))"
        unfolding bounds_def
      proof (intro conjI impI)
        assume "v \<le> al"
        with A show "Max (?gc ` set ?ms) \<le> v" using fin by (simp add: Max_le_iff)
      next
        assume "al < v \<and> v < be"
        with B show "Max (?gc ` set ?ms) = v"
          by (intro Max_eqI) (use fin in auto)
      next
        assume "be \<le> v"
        with C obtain m where m: "m \<in> set ?ms" "v \<le> ?gc m" by blast
        from m(1) have "?gc m \<le> Max (?gc ` set ?ms)" using fin by (intro Max_ge) auto
        with m(2) show "v \<le> Max (?gc ` set ?ms)" by (rule order_trans)
      qed
      with l g r True mx show ?thesis by simp
    next
      case mn: False
      let ?gc = "\<lambda>m. game_value d (board[m := h]) a h True"
      have kids: "\<forall>m \<in> set ?ms. \<forall>be'. al < be' \<and> be' \<le> be \<longrightarrow>
          (\<exists>s mv. minimax_cached d (board[m := h]) a h True al be' = Inr (s, mv) \<and>
                  bounds al be' s (?gc m))"
        using child Suc.prems(4,6) by auto
      from min_loop_bounds [where rec = "minimax_cached d" and gc = ?gc and val = 999
          and best = None, OF moves Suc.prems(6,5) kids]
      obtain v bm where
        l: "min_loop (minimax_cached d) a h ?ms board 999 None al be = Inr ((v, bm), board)"
        and A: "be \<le> v \<longrightarrow> (\<forall>m \<in> set ?ms. v \<le> ?gc m)"
        and B: "al < v \<and> v < be \<longrightarrow> (\<forall>m \<in> set ?ms. v \<le> ?gc m) \<and> (\<exists>m \<in> set ?ms. ?gc m = v)"
        and C: "v \<le> al \<longrightarrow> (\<exists>m \<in> set ?ms. ?gc m \<le> v)"
        by blast
      have g: "game_value (Suc d) board a h mx = Min (?gc ` set ?ms)"
        using r True mn ne by simp
      have fin: "finite (?gc ` set ?ms)" "?gc ` set ?ms \<noteq> {}" using ne by auto
      have "bounds al be v (Min (?gc ` set ?ms))"
        unfolding bounds_def
      proof (intro conjI impI)
        assume "be \<le> v"
        with A show "v \<le> Min (?gc ` set ?ms)" using fin by (simp add: Min_ge_iff)
      next
        assume "al < v \<and> v < be"
        with B show "Min (?gc ` set ?ms) = v"
          by (intro Min_eqI) (use fin in auto)
      next
        assume "v \<le> al"
        with C obtain m where m: "m \<in> set ?ms" "?gc m \<le> v" by blast
        from m(1) have "Min (?gc ` set ?ms) \<le> ?gc m" using fin by (intro Min_le) auto
        then show "Min (?gc ` set ?ms) \<le> v" using m(2) by (rule order_trans)
      qed
      with l g r True mn show ?thesis by simp
    qed
  qed
qed



text \<open>On the full window the search returns the exhaustive game value.\<close>

lemma full_window_value:
  assumes "a \<noteq> []" "h \<noteq> []"
      and "length board = 9" "set board \<subseteq> {[], a, h}" "count_list board [] < d"
  shows "\<exists>mv. minimax_cached d board a h mx (- 999) 999
           = Inr (game_value d board a h mx, mv)"
proof -
  from minimax_bounds [OF assms, of "- 999" 999 mx] obtain s mv where
    s: "minimax_cached d board a h mx (- 999) 999 = Inr (s, mv)"
       "bounds (- 999) 999 s (game_value d board a h mx)"
    by auto
  from minimax_range [OF assms, of mx "- 999" 999] s(1) have "s \<in> {- 1, 0, 1}" by auto
  with s(2) have "game_value d board a h mx = s" by (auto simp: bounds_def)
  with s(1) show ?thesis by blast
qed

section \<open>A board one move from a win\<close>

lemma sorted_available_moves: "sorted (available_moves board)"
  by (simp add: available_moves_def sorted_wrt_filter)

lemma max_loop_least_win:
  assumes "\<forall>m \<in> set ms. m < length board \<and> board ! m = []"
      and "\<forall>m \<in> set ms. \<forall>al. \<exists>s mv. rec (board[m := a]) a h False al beta = Inr (s, mv) \<and>
             s \<le> 1 \<and> (lo \<le> al \<and> al < 1 \<longrightarrow> bounds al beta s (gc m))"
      and "w \<in> set ms" and "gc w = 1"
      and "sorted ms" and "1 < beta"
  shows "val \<le> alpha \<Longrightarrow> lo \<le> alpha \<Longrightarrow> alpha < 1 \<Longrightarrow>
         \<exists>m. max_loop rec a h ms board val best alpha beta = Inr ((1, Some m), board) \<and>
             m \<in> set ms \<and> m \<le> w \<and> gc m = 1 \<and> (\<forall>m' \<in> set ms. m' < m \<longrightarrow> gc m' < 1)"
  using assms(1,2,3,5)
proof (induction ms arbitrary: val best alpha)
  case Nil
  then show ?case by simp
next
  case (Cons m0 rest)
  from Cons.prems have m0: "m0 < length board" "board ! m0 = []" by auto
  from Cons.prems(3,5) have "alpha < 1" "\<forall>al. \<exists>s mv. rec (board[m0 := a]) a h False al beta = Inr (s, mv) \<and>
             s \<le> 1 \<and> (lo \<le> al \<and> al < 1 \<longrightarrow> bounds al beta s (gc m0))" by simp_all
  with Cons.prems(2) obtain s mv where
    s: "rec (board[m0 := a]) a h False alpha beta = Inr (s, mv)" "s \<le> 1"
       "bounds alpha beta s (gc m0)"
    by blast
  have rest: "\<forall>m \<in> set rest. m < length board \<and> board ! m = []"
    "\<forall>m \<in> set rest. \<forall>al. \<exists>s mv. rec (board[m := a]) a h False al beta = Inr (s, mv) \<and>
             s \<le> 1 \<and> (lo \<le> al \<and> al < 1 \<longrightarrow> bounds al beta s (gc m))"
    "sorted rest"
    using Cons.prems by auto
  have le: "\<forall>m \<in> set rest. m0 \<le> m" "m0 \<le> w" using Cons.prems(6,7) by auto
  have val: "val < 1" using Cons.prems(1,3) by simp
  show ?case
  proof (cases "s = 1")
    case True
    have rest': "\<forall>m \<in> set rest. \<forall>al. \<exists>s mv. rec (board[m := a]) a h False al beta = Inr (s, mv) \<and> s \<le> 1"
      using rest(2) by blast
    from max_loop_result [where Q = "\<lambda>s. s \<le> 1" and val = 1 and best = "Some m0"
        and alpha = "max alpha 1" and rec = rec and a = a and h = h and beta = beta
        and ms = rest and board = board, OF rest(1) rest']
    have "max_loop rec a h rest board 1 (Some m0) (max alpha 1) beta = Inr ((1, Some m0), board)"
      by auto
    moreover from True s(3) Cons.prems(3) assms(6) have "gc m0 = 1"
      by (simp add: bounds_def)
    ultimately show ?thesis
      using True s(1) m0 val Cons.prems(3) assms(6) le
      by (auto simp: undo_placement Let_def)
  next
    case False
    with s have lt: "s < 1" by simp
    with s(3) Cons.prems(3) assms(6) have g0: "gc m0 < 1"
      by (auto simp: bounds_def)
    with assms(4) have "m0 \<noteq> w" by auto
    with Cons.prems(6) have w: "w \<in> set rest" by simp
    show ?thesis
    proof (cases "s > val")
      case True
      have "s \<le> max alpha s" "lo \<le> max alpha s" "max alpha s < 1"
        using Cons.prems(2,3) lt by auto
      from Cons.IH [OF this rest(1,2) w rest(3), of "Some m0"]
      obtain m where "max_loop rec a h rest board s (Some m0) (max alpha s) beta
            = Inr ((1, Some m), board)"
        "m \<in> set rest" "m \<le> w" "gc m = 1" "\<forall>m' \<in> set rest. m' < m \<longrightarrow> gc m' < 1"
        by auto
      with True s(1) m0 Cons.prems(3) lt assms(6) g0 show ?thesis
        by (auto simp: undo_placement Let_def)
    next
      case nb: False
      have "val \<le> max alpha val" "lo \<le> max alpha val" "max alpha val < 1"
        using Cons.prems(2,3) val by auto
      from Cons.IH [OF this rest(1,2) w rest(3), of best]
      obtain m where "max_loop rec a h rest board val best (max alpha val) beta
            = Inr ((1, Some m), board)"
        "m \<in> set rest" "m \<le> w" "gc m = 1" "\<forall>m' \<in> set rest. m' < m \<longrightarrow> gc m' < 1"
        by auto
      with nb s(1) m0 Cons.prems(3) val assms(6) g0 show ?thesis
        by (auto simp: undo_placement Let_def)
    qed
  qed
qed

lemma win_value_leaf:
  assumes "check_winner b = Inr (Some a)"
  shows "game_value (Suc d) b a h mx = 1"
  using assms by simp

text \<open>
  Claim C3, amended. On a board that is not terminal and on which the AI completes a
  line by writing its mark at the empty position \<open>w\<close>, the search value is 1 and
  \<open>ai_move\<close> returns the lowest-index empty position from which the AI wins by force:
  the position \<open>m\<close> it returns is empty and at most \<open>w\<close>; the board after the AI's mark
  is written at \<open>m\<close>, opponent to move, has exhaustive game value 1 and the search
  scores it 1 on the full window \<open>(-999, 999)\<close>; and after the AI's mark is written at
  any lower empty position the game value, which is the score of the search on the full
  window, is below 1. So it returns \<open>w\<close> itself when no lower empty position wins by
  force. On the board \<open>[A, A, '', B, B, '', '', '', '']\<close> it returns position 2.
\<close>

theorem ai_move_forced_win:
  assumes "ai_player \<noteq> []" "human_player \<noteq> []" "9 < depth"
  shows "(\<forall>board w. length board = 9 \<and> set board \<subseteq> {[], ai_player, human_player} \<and>
            check_winner board = Inr None \<and> w < 9 \<and> board ! w = [] \<and>
            check_winner (board[w := ai_player]) = Inr (Some ai_player) \<longrightarrow>
            (\<exists>m. ai_move depth board ai_player human_player = Inr (Some m) \<and>
                 minimax_cached depth board ai_player human_player True (- 999) 999
                   = Inr (1, Some m) \<and>
                 m \<le> w \<and> board ! m = [] \<and>
                 game_value (depth - 1) (board[m := ai_player]) ai_player human_player False = 1 \<and>
                 (\<exists>mv. minimax_cached (depth - 1) (board[m := ai_player])
                         ai_player human_player False (- 999) 999 = Inr (1, mv)) \<and>
                 (\<forall>m'<m. board ! m' = [] \<longrightarrow>
                    (\<exists>s mv. minimax_cached (depth - 1) (board[m' := ai_player])
                              ai_player human_player False (- 999) 999 = Inr (s, mv) \<and>
                            s < 1 \<and>
                            game_value (depth - 1) (board[m' := ai_player])
                              ai_player human_player False = s)))) \<and>
         ai_move depth [ai_player, ai_player, [], human_player, human_player, [], [], [], []]
           ai_player human_player = Inr (Some 2)"
proof -
  let ?a = ai_player and ?h = human_player
  from assms(3) obtain d where d: "depth = Suc d" "9 \<le> d" by (cases depth) auto
  then obtain d' where d': "d = Suc d'" by (cases d) auto
  have general: "\<exists>m. ai_move depth board ?a ?h = Inr (Some m) \<and>
                 minimax_cached depth board ?a ?h True (- 999) 999 = Inr (1, Some m) \<and>
                 m \<le> w \<and> board ! m = [] \<and>
                 game_value (depth - 1) (board[m := ?a]) ?a ?h False = 1 \<and>
                 (\<exists>mv. minimax_cached (depth - 1) (board[m := ?a]) ?a ?h False (- 999) 999
                    = Inr (1, mv)) \<and>
                 (\<forall>m'<m. board ! m' = [] \<longrightarrow>
                    (\<exists>s mv. minimax_cached (depth - 1) (board[m' := ?a]) ?a ?h False (- 999) 999
                        = Inr (s, mv) \<and> s < 1 \<and>
                      game_value (depth - 1) (board[m' := ?a]) ?a ?h False = s))"
    if b: "length board = 9" "set board \<subseteq> {[], ?a, ?h}" "check_winner board = Inr None"
      and w: "w < 9" "board ! w = []" "check_winner (board[w := ?a]) = Inr (Some ?a)"
    for board w
  proof -
    let ?gc = "\<lambda>m. game_value d (board[m := ?a]) ?a ?h False"
    have moves: "\<forall>m \<in> set (available_moves board). m < length board \<and> board ! m = []"
      by (simp add: available_moves_iff)
    have valid: "length (board[m := ?a]) = 9 \<and> set (board[m := ?a]) \<subseteq> {[], ?a, ?h} \<and>
        count_list (board[m := ?a]) [] < d"
      if "m \<in> set (available_moves board)" for m
    proof -
      from that have m: "m < length board" "board ! m = []" by (auto simp: available_moves_iff)
      with assms(1) have "Suc (count_list (board[m := ?a]) []) = count_list board []"
        by (simp add: count_empty_placement)
      moreover have "count_list board [] \<le> 9" using count_empty_le [of board] b(1) by simp
      ultimately have "count_list (board[m := ?a]) [] < d" using d(2) by simp
      moreover have "set (board[m := ?a]) \<subseteq> {[], ?a, ?h}"
        using set_update_subset_insert [of board m ?a] b(2) by auto
      ultimately show ?thesis using b(1) by simp
    qed
    have full: "\<exists>mv. minimax_cached d (board[m := ?a]) ?a ?h False (- 999) 999
        = Inr (?gc m, mv)"
      if "m \<in> set (available_moves board)" for m
      using valid [OF that] full_window_value [OF assms(1,2), of "board[m := ?a]" d False]
      by blast
    have child: "\<exists>s mv. minimax_cached d (board[m := ?a]) ?a ?h False al 999 = Inr (s, mv) \<and>
        s \<le> 1 \<and> (- 999 \<le> al \<and> al < 1 \<longrightarrow> bounds al 999 s (?gc m))"
      if "m \<in> set (available_moves board)" for m al
    proof -
      from that have m: "m < length board" "board ! m = []" by (auto simp: available_moves_iff)
      with assms(1) have "Suc (count_list (board[m := ?a]) []) = count_list board []"
        by (simp add: count_empty_placement)
      moreover have "count_list board [] \<le> 9" using count_empty_le [of board] b(1) by simp
      ultimately have c: "count_list (board[m := ?a]) [] < d" using d(2) by simp
      have l: "length (board[m := ?a]) = 9" using b(1) by simp
      have s: "set (board[m := ?a]) \<subseteq> {[], ?a, ?h}"
        using set_update_subset_insert [of board m ?a] b(2) by auto
      from c l s obtain v bm where
        v: "minimax_cached d (board[m := ?a]) ?a ?h False al 999 = Inr (v, bm)" "v \<in> {- 1, 0, 1}"
        using minimax_range [OF assms(1,2), of "board[m := ?a]" d False al 999] by blast
      have "bounds al 999 v (?gc m)" if "- 999 \<le> al" "al < 1"
        using minimax_bounds [OF assms(1,2) l s c that(1), of 999 False] that(2) v(1) by auto
      with v show ?thesis by auto
    qed
    have win: "?gc w = 1"
      unfolding d' using win_value_leaf [OF w(3)] by blast
    have wm: "w \<in> set (available_moves board)"
      using w b(1) by (simp add: available_moves_iff)
    have kids: "\<forall>m \<in> set (available_moves board). \<forall>al. \<exists>s mv.
        minimax_cached d (board[m := ?a]) ?a ?h False al 999 = Inr (s, mv) \<and>
        s \<le> 1 \<and> (- 999 \<le> al \<and> al < 1 \<longrightarrow> bounds al 999 s (?gc m))"
      using child by blast
    from max_loop_least_win [where rec = "minimax_cached d" and a = ?a and h = ?h and beta = 999
        and ms = "available_moves board" and board = board and w = w and val = "- 999"
        and alpha = "- 999" and best = None and lo = "- 999" and gc = ?gc,
        OF moves kids wm win sorted_available_moves]
    obtain m where m: "max_loop (minimax_cached d) ?a ?h (available_moves board) board (- 999)
          None (- 999) 999 = Inr ((1, Some m), board)"
      "m \<in> set (available_moves board)" "m \<le> w" "?gc m = 1"
      "\<forall>m' \<in> set (available_moves board). m' < m \<longrightarrow> ?gc m' < 1"
      by auto
    from m(1) b(3) have r: "minimax_cached depth board ?a ?h True (- 999) 999 = Inr (1, Some m)"
      unfolding d(1) by simp
    then have "ai_move depth board ?a ?h = Inr (Some m)"
      by (simp add: ai_move_def)
    moreover have "\<forall>m'<m. board ! m' = [] \<longrightarrow>
        (\<exists>s mv. minimax_cached d (board[m' := ?a]) ?a ?h False (- 999) 999 = Inr (s, mv) \<and>
           s < 1 \<and> ?gc m' = s)"
    proof (intro allI impI)
      fix m' assume "m' < m" "board ! m' = []"
      moreover from this(1) m(2) have "m' < length board" by (simp add: available_moves_iff)
      ultimately have m': "m' \<in> set (available_moves board)" by (simp add: available_moves_iff)
      with m(5) \<open>m' < m\<close> have "?gc m' < 1" by blast
      with full [OF m']
      show "\<exists>s mv. minimax_cached d (board[m' := ?a]) ?a ?h False (- 999) 999 = Inr (s, mv) \<and>
           s < 1 \<and> ?gc m' = s"
        by blast
    qed
    moreover have "\<exists>mv. minimax_cached d (board[m := ?a]) ?a ?h False (- 999) 999 = Inr (1, mv)"
      using full [OF m(2)] m(4) by simp
    moreover have "m \<le> w" "board ! m = []" "?gc m = 1"
      using m(2,3,4) by (simp_all add: available_moves_iff)
    ultimately show ?thesis
      using r unfolding d(1) by simp
  qed
  let ?b = "[?a, ?a, [], ?h, ?h, [], [], [], []]"
  have "\<exists>m. ai_move depth ?b ?a ?h = Inr (Some m) \<and> m \<le> 2 \<and> ?b ! m = []"
  proof -
    have 1: "length ?b = 9" "set ?b \<subseteq> {[], ?a, ?h}" "(2::nat) < 9" "?b ! 2 = []" by auto
    have 2: "check_winner ?b = Inr None"
      using assms(1,2)
      by (simp add: check_winner_find WINNING_LINES_def three_in_row_def)
    have 3: "check_winner (?b[2 := ?a]) = Inr (Some ?a)"
      using assms(1,2)
      by (simp add: check_winner_find WINNING_LINES_def three_in_row_def)
    from general [OF 1(1,2) 2 1(3,4) 3] show ?thesis by blast
  qed
  then obtain m where m: "ai_move depth ?b ?a ?h = Inr (Some m)" "m \<le> 2" "?b ! m = []"
    by blast
  from m(2) have "m = 0 \<or> m = 1 \<or> m = 2" by auto
  with m(3) assms(1) have "m = 2" by auto
  with m(1) general show ?thesis by blast
qed

section \<open>A board on which the opponent threatens to win\<close>

lemma min_loop_threat:
  assumes "\<forall>m \<in> set ms. m < length board \<and> board ! m = []"
      and "\<forall>m \<in> set ms. \<forall>be. \<exists>s mv. rec (board[m := h]) a h True alpha be = Inr (s, mv) \<and> - 1 \<le> s"
      and "t \<in> set ms" and "\<forall>be. \<exists>mv. rec (board[t := h]) a h True alpha be = Inr (- 1, mv)"
  shows "- 1 \<le> val \<Longrightarrow> alpha < beta \<Longrightarrow>
         \<exists>v bm. min_loop rec a h ms board val best alpha beta = Inr ((v, bm), board) \<and>
               (v = - 1 \<or> v \<le> alpha)"
  using assms(1,2,3)
proof (induction ms arbitrary: val best beta)
  case Nil
  then show ?case by simp
next
  case (Cons m0 rest)
  from Cons.prems have m0: "m0 < length board" "board ! m0 = []" by auto
  from Cons.prems obtain s mv where
    s: "rec (board[m0 := h]) a h True alpha beta = Inr (s, mv)" "- 1 \<le> s"
    by (meson list.set_intros(1))
  have rest: "\<forall>m \<in> set rest. m < length board \<and> board ! m = []"
    "\<forall>m \<in> set rest. \<forall>be. \<exists>s mv. rec (board[m := h]) a h True alpha be = Inr (s, mv) \<and> - 1 \<le> s"
    using Cons.prems by auto
  show ?case
  proof (cases "m0 = t")
    case True
    with assms(4) s(1) have s1: "s = - 1" by (metis Pair_inject sum.inject(2))
    define val' best' where "val' = (if s < val then s else val)"
      and "best' = (if s < val then Some m0 else best)"
    have v1: "val' = - 1" using s1 Cons.prems(1) by (auto simp: val'_def)
    from min_loop_result [where Q = "\<lambda>s. - 1 \<le> s" and val = val' and best = best'
        and beta = "min beta val'" and rec = rec and a = a and h = h and alpha = alpha
        and ms = rest and board = board, OF rest]
    obtain v bm where "min_loop rec a h rest board val' best' alpha (min beta val') = Inr ((v, bm), board)"
      "v = - 1" using v1 by auto
    with s m0 v1 show ?thesis
      by (auto simp: undo_placement Let_def val'_def best'_def)
  next
    case False
    with Cons.prems(5) have t: "t \<in> set rest" by simp
    define val' best' where "val' = (if s < val then s else val)"
      and "best' = (if s < val then Some m0 else best)"
    have v1: "- 1 \<le> val'" using s(2) Cons.prems(1) by (auto simp: val'_def)
    show ?thesis
    proof (cases "alpha \<ge> min beta val'")
      case True
      with Cons.prems(2) have "val' \<le> alpha" by auto
      with True s m0 show ?thesis
        by (auto simp: undo_placement Let_def val'_def best'_def)
    next
      case nb: False
      then have "alpha < min beta val'" using not_le by blast
      from Cons.IH [OF v1 this rest t, of best']
      obtain v bm where "min_loop rec a h rest board val' best' alpha (min beta val') = Inr ((v, bm), board)"
        "v = - 1 \<or> v \<le> alpha" by blast
      with nb s m0 show ?thesis
        by (auto simp: undo_placement Let_def val'_def best'_def)
    qed
  qed
qed

lemma max_loop_block:
  assumes "\<forall>m \<in> set ms. m < length board \<and> board ! m = []"
      and "\<forall>m \<in> set ms. \<forall>al. \<exists>s mv. rec (board[m := a]) a h False al beta = Inr (s, mv) \<and>
              (m \<noteq> t \<longrightarrow> s = - 1 \<or> s \<le> al)"
  shows "alpha = val \<Longrightarrow> (0 \<le> val \<longrightarrow> best = Some t) \<Longrightarrow>
         \<exists>v bm. max_loop rec a h ms board val best alpha beta = Inr ((v, bm), board) \<and>
               (0 \<le> v \<longrightarrow> bm = Some t)"
  using assms
proof (induction ms arbitrary: val best alpha)
  case Nil
  then show ?case by simp
next
  case (Cons m0 rest)
  from Cons.prems have m0: "m0 < length board" "board ! m0 = []" by auto
  from Cons.prems obtain s mv where
    s: "rec (board[m0 := a]) a h False alpha beta = Inr (s, mv)" "m0 \<noteq> t \<longrightarrow> s = - 1 \<or> s \<le> alpha"
    by (meson list.set_intros(1))
  have rest: "\<forall>m \<in> set rest. m < length board \<and> board ! m = []"
    "\<forall>m \<in> set rest. \<forall>al. \<exists>s mv. rec (board[m := a]) a h False al beta = Inr (s, mv) \<and>
              (m \<noteq> t \<longrightarrow> s = - 1 \<or> s \<le> al)"
    using Cons.prems by auto
  define val' best' where "val' = (if s > val then s else val)"
    and "best' = (if s > val then Some m0 else best)"
  have a1: "max alpha val' = val'" using Cons.prems(1) by (auto simp: val'_def)
  have inv: "0 \<le> val' \<longrightarrow> best' = Some t"
    using Cons.prems(1,2) s(2) by (auto simp: val'_def best'_def)
  from Cons.IH [OF a1 inv rest]
  obtain v bm where "max_loop rec a h rest board val' best' (max alpha val') beta = Inr ((v, bm), board)"
    "0 \<le> v \<longrightarrow> bm = Some t" by blast
  with s m0 inv show ?case
    by (auto simp: undo_placement Let_def val'_def best'_def)
qed

lemma three_in_row_update:
  assumes "three_in_row (board[m := v]) (x, y, z)"
      and "x < length board" "y < length board" "z < length board"
  shows "three_in_row board (x, y, z) \<or> ((m = x \<or> m = y \<or> m = z) \<and> (board[m := v]) ! x = v)"
proof (cases "m = x \<or> m = y \<or> m = z")
  case True
  with assms show ?thesis
    by (auto simp: three_in_row_def)
next
  case False
  with assms show ?thesis
    by (auto simp: three_in_row_def)
qed

lemma placement_result:
  assumes "length board = 9" "check_winner board = Inr None"
  shows "check_winner (board[m := v]) = Inr (Some v) \<or>
         find (three_in_row (board[m := v])) WINNING_LINES = None"
proof (cases "find (three_in_row (board[m := v])) WINNING_LINES")
  case None
  then show ?thesis by simp
next
  case (Some l)
  obtain x y z where l: "l = (x, y, z)" by (cases l) auto
  from Some have in_l: "l \<in> set WINNING_LINES" and row: "three_in_row (board[m := v]) l"
    by (auto simp: find_Some_iff)
  from in_l l lines_in_range assms(1) have r: "x < length board" "y < length board" "z < length board"
    by auto
  from assms have "find (three_in_row board) WINNING_LINES = None"
    by (simp add: check_winner_None_iff)
  with in_l l have "\<not> three_in_row board l" by (auto simp: find_None_iff)
  with three_in_row_update [OF row [unfolded l] r] l have "(board[m := v]) ! x = v" by auto
  moreover have "check_winner (board[m := v]) = Inr (Some ((board[m := v]) ! fst l))"
    using check_winner_find [of "board[m := v]"] assms(1) Some by simp
  ultimately show ?thesis using l by simp
qed

lemma loss_leaf:
  assumes "check_winner b = Inr (Some h)" "a \<noteq> h"
  shows "minimax_cached (Suc d) b a h mx al be = Inr (- 1, None)"
  using assms by simp

lemma placement_keeps_threat:
  assumes len: "length board = 9" and none: "check_winner board = Inr None"
      and mk: "h \<noteq> []" "h \<noteq> ''Draw''"
      and t: "t < 9" "board ! t = []" "check_winner (board[t := h]) = Inr (Some h)"
      and m: "m < 9" "board ! m = []" "m \<noteq> t"
      and child: "check_winner (board[m := a]) = Inr None"
  shows "check_winner (board[m := a, t := h]) = Inr (Some h)"
proof -
  let ?g = "board[m := a, t := h]"
  from t(3) mk len obtain l where l: "find (three_in_row (board[t := h])) WINNING_LINES = Some l"
    using check_winner_find [of "board[t := h]"]
    by (cases "find (three_in_row (board[t := h])) WINNING_LINES") (auto split: if_splits)
  obtain x y z where xyz: "l = (x, y, z)" by (cases l) auto
  from l have in_l: "l \<in> set WINNING_LINES" and row: "three_in_row (board[t := h]) l"
    by (auto simp: find_Some_iff)
  from in_l xyz lines_in_range len have r: "x < length board" "y < length board" "z < length board"
    by auto
  from none len have "find (three_in_row board) WINNING_LINES = None"
    by (simp add: check_winner_None_iff)
  with in_l xyz have "\<not> three_in_row board (x, y, z)" by (auto simp: find_None_iff)
  with three_in_row_update [OF row [unfolded xyz] r] have "(board[t := h]) ! x = h" by auto
  with row xyz have cells: "(board[t := h]) ! x = h" "(board[t := h]) ! y = h" "(board[t := h]) ! z = h"
    by (auto simp: three_in_row_def)
  have "(board[t := h]) ! m = []" using m by simp
  with cells mk(1) have "m \<noteq> x" "m \<noteq> y" "m \<noteq> z" by auto
  then have "?g ! x = (board[t := h]) ! x" "?g ! y = (board[t := h]) ! y"
    "?g ! z = (board[t := h]) ! z"
    using r len t(1) m(1) by (auto simp: nth_list_update)
  with cells mk(1) have "three_in_row ?g l" by (simp add: xyz three_in_row_def)
  with in_l have "find (three_in_row ?g) WINNING_LINES \<noteq> None"
    unfolding find_None_iff by blast
  moreover have "length (board[m := a]) = 9" using len by simp
  ultimately show ?thesis
    using placement_result [OF _ child, of t h] by auto
qed


lemma block_or_lose:
  assumes vm: "valid_marks a h" and depth: "9 < depth"
      and len: "length board = 9" and marks: "set board \<subseteq> {[], a, h}"
      and none: "check_winner board = Inr None"
      and nowin: "\<forall>m<9. board ! m = [] \<longrightarrow> check_winner (board[m := a]) \<noteq> Inr (Some a)"
      and t: "t < 9" "board ! t = []" "check_winner (board[t := h]) = Inr (Some h)"
  shows "\<exists>v bm. minimax_cached depth board a h True (- 999) 999 = Inr (v, bm) \<and>
           (0 \<le> v \<longrightarrow> bm = Some t)"
proof -
  from vm have mk: "a \<noteq> []" "h \<noteq> []" "a \<noteq> h" "h \<noteq> ''Draw''"
    by (simp_all add: valid_marks_def)
  from depth obtain d where d: "depth = Suc d" "9 \<le> d" by (cases depth) auto
  then obtain d' where d': "d = Suc d'" "8 \<le> d'" by (cases d) auto
  then obtain d'' where d'': "d' = Suc d''" by (cases d') auto
  have cnt: "count_list board [] \<le> 9" using count_empty_le [of board] len by simp
  have moves: "\<forall>m \<in> set (available_moves board). m < length board \<and> board ! m = []"
    by (simp add: available_moves_iff)
  have child: "\<exists>s mv. minimax_cached d (board[m := a]) a h False al 999 = Inr (s, mv) \<and>
                 (m \<noteq> t \<longrightarrow> s = - 1 \<or> s \<le> al)"
    if mm: "m \<in> set (available_moves board)" for m al
  proof -
    let ?c = "board[m := a]"
    from mm len have m: "m < 9" "board ! m = []" by (auto simp: available_moves_iff)
    have clen: "length ?c = 9" using len by simp
    have cmarks: "set ?c \<subseteq> {[], a, h}"
      using set_update_subset_insert [of board m a] marks by auto
    have ccnt: "Suc (count_list ?c []) = count_list board []"
      using m len mk(1) by (simp add: count_empty_placement)
    with cnt d(2) have "count_list ?c [] < d" by simp
    from minimax_range [OF mk(1,2) clen cmarks this, of False al 999]
    obtain s mv where s: "minimax_cached d ?c a h False al 999 = Inr (s, mv)" "s \<in> {- 1, 0, 1}"
      by blast
    have "s = - 1 \<or> s \<le> al" if neq: "m \<noteq> t"
    proof (cases "al < 999")
      case False
      with s(2) show ?thesis by auto
    next
      case True
      have "find (three_in_row ?c) WINNING_LINES = None"
        using placement_result [OF len none, of m a] nowin m by auto
      moreover have "?c ! t = []" using t neq by simp
      then have "[] \<in> set ?c" using clen t(1) by (metis nth_mem)
      ultimately have cw: "check_winner ?c = Inr None"
        using clen by (simp add: check_winner_None_iff)
      have tc: "t \<in> set (available_moves ?c)"
        using t neq clen by (simp add: available_moves_iff)
      have "check_winner (?c[t := h]) = Inr (Some h)"
        using placement_keeps_threat [OF len none mk(2,4) t m neq cw] .
      then have leaf: "\<forall>be. \<exists>mv. minimax_cached d' (?c[t := h]) a h True al be = Inr (- 1, mv)"
        unfolding d'' using loss_leaf [OF _ mk(3)] by blast
      have cmoves: "\<forall>m' \<in> set (available_moves ?c). m' < length ?c \<and> ?c ! m' = []"
        by (simp add: available_moves_iff)
      have grand: "\<forall>m' \<in> set (available_moves ?c). \<forall>be. \<exists>s mv.
          minimax_cached d' (?c[m' := h]) a h True al be = Inr (s, mv) \<and> - 1 \<le> s"
      proof (intro ballI allI)
        fix m' be assume "m' \<in> set (available_moves ?c)"
        then have m': "m' < length ?c" "?c ! m' = []" by (auto simp: available_moves_iff)
        then have "Suc (count_list (?c[m' := h]) []) = count_list ?c []"
          using mk(2) by (simp add: count_empty_placement)
        with ccnt cnt d'(2) have "count_list (?c[m' := h]) [] < d'" by simp
        moreover have "length (?c[m' := h]) = 9" using len by simp
        moreover have "set (?c[m' := h]) \<subseteq> {[], a, h}"
          using set_update_subset_insert [of ?c m' h] cmarks by auto
        ultimately obtain v bm where
          "minimax_cached d' (?c[m' := h]) a h True al be = Inr (v, bm)" "v \<in> {- 1, 0, 1}"
          using minimax_range [OF mk(1,2), of "?c[m' := h]" d' True al be] by blast
        then show "\<exists>s mv. minimax_cached d' (?c[m' := h]) a h True al be = Inr (s, mv) \<and> - 1 \<le> s"
          by auto
      qed
      from min_loop_threat [where rec = "minimax_cached d'" and a = a and h = h and alpha = al
          and ms = "available_moves ?c" and board = ?c and t = t and val = 999 and beta = 999
          and best = None, OF cmoves grand tc leaf] True
      obtain v bm where
        "min_loop (minimax_cached d') a h (available_moves ?c) ?c 999 None al 999 = Inr ((v, bm), ?c)"
        "v = - 1 \<or> v \<le> al" by auto
      with cw mk have "minimax_cached d ?c a h False al 999 = Inr (v, bm)"
        unfolding d'(1) by simp
      with s(1) \<open>v = - 1 \<or> v \<le> al\<close> show ?thesis by simp
    qed
    with s(1) show ?thesis by blast
  qed
  from max_loop_block [where rec = "minimax_cached d" and a = a and h = h and beta = 999
      and ms = "available_moves board" and board = board and t = t and val = "- 999"
      and alpha = "- 999" and best = None, OF moves] child
  obtain v bm where
    "max_loop (minimax_cached d) a h (available_moves board) board (- 999) None (- 999) 999
       = Inr ((v, bm), board)" "0 \<le> v \<longrightarrow> bm = Some t"
    by auto
  with none show ?thesis unfolding d(1) by simp
qed

section \<open>Wins and blocks on concrete boards\<close>

lemma marks_XO: "valid_marks ''X'' ''O''"
  by (simp add: valid_marks_def)

lemma all_less_9:
  "(\<forall>m<9. P m) \<longleftrightarrow> P 0 \<and> P 1 \<and> P 2 \<and> P 3 \<and> P 4 \<and> P 5 \<and> P 6 \<and> P 7 \<and> P (8::nat)"
proof -
  have "{m::nat. m < 9} = {0, 1, 2, 3, 4, 5, 6, 7, 8}" by auto
  then have "(\<forall>m<9. P m) \<longleftrightarrow> (\<forall>m \<in> {0, 1, 2, 3, 4, 5, 6, 7, 8::nat}. P m)" by blast
  then show ?thesis by simp
qed

lemma ai_move_compute:
  assumes "valid_marks a h" "length cs = 9"
      and "abs_minimax d cs True (- 999) 999 = Inr (v, bm)" "d \<le> depth"
  shows "ai_move depth (concrete a h cs) a h = Inr bm"
  using minimax_cached_compute [OF assms] by (simp add: ai_move_def)

lemma fork_value: "abs_minimax 10 [Blank, Hu, Hu, Ai, Ai, Blank, Blank, Blank, Blank]
    True (- 999) 999 = Inr (1, Some 0)"
  by code_simp

lemma lost_value: "abs_minimax 10 [Blank, Ai, Blank, Hu, Hu, Blank, Blank, Blank, Blank]
    True (- 999) 999 = Inr (- 1, Some 0)"
  by code_simp

lemma block_value: "abs_minimax 10 [Ai, Blank, Blank, Hu, Hu, Blank, Blank, Blank, Blank]
    True (- 999) 999 = Inr (0, Some 5)"
  by code_simp

theorem ai_move_forced_win_witness:
  "ai_move 10 [[], ''O'', ''O'', ''X'', ''X'', [], [], [], []] ''X'' ''O'' = Inr (Some 0) \<and>
   minimax_cached 10 [[], ''O'', ''O'', ''X'', ''X'', [], [], [], []] ''X'' ''O'' True (- 999) 999
     = Inr (1, Some 0) \<and>
   game_value 9 ([[], ''O'', ''O'', ''X'', ''X'', [], [], [], []][0 := ''X'']) ''X'' ''O'' False = 1 \<and>
   ai_move 10 [''X'', ''X'', [], ''O'', ''O'', [], [], [], []] ''X'' ''O'' = Inr (Some 2)"
proof -
  let ?b = "[[], ''O'', ''O'', ''X'', ''X'', [], [], [], []]"
  have mk: "''X'' \<noteq> []" "''O'' \<noteq> []" "(9::nat) < 10" by simp_all
  have h: "length ?b = 9 \<and> set ?b \<subseteq> {[], ''X'', ''O''} \<and> check_winner ?b = Inr None \<and>
      (5::nat) < 9 \<and> ?b ! 5 = [] \<and> check_winner (?b[5 := ''X'']) = Inr (Some ''X'')"
    by (simp add: check_winner_find WINNING_LINES_def three_in_row_def)
  have "ai_move 10 (concrete ''X'' ''O'' [Blank, Hu, Hu, Ai, Ai, Blank, Blank, Blank, Blank])
      ''X'' ''O'' = Inr (Some 0)"
    by (rule ai_move_compute [OF marks_XO _ fork_value]) simp_all
  then have m0: "ai_move 10 ?b ''X'' ''O'' = Inr (Some 0)"
    by (simp add: concrete_def)
  from ai_move_forced_win [OF mk] h obtain m where
    m: "ai_move 10 ?b ''X'' ''O'' = Inr (Some m)"
       "minimax_cached 10 ?b ''X'' ''O'' True (- 999) 999 = Inr (1, Some m)"
       "game_value (10 - 1) (?b[m := ''X'']) ''X'' ''O'' False = 1"
    and two: "ai_move 10 [''X'', ''X'', [], ''O'', ''O'', [], [], [], []] ''X'' ''O'' = Inr (Some 2)"
    by blast
  from m(1) m0 have "m = 0" by simp
  with m m0 two show ?thesis by simp
qed

text \<open>
  Claim C3 as stated fails: with \<open>X\<close> to move on \<open>['', O, O, X, X, '', '', '', '']\<close>
  position 5 completes the middle row and position 0 completes nothing, yet \<open>ai_move\<close>
  returns 0, from which \<open>X\<close> also wins by force.
\<close>

theorem immediate_win_counterexample:
  "check_winner [[], ''O'', ''O'', ''X'', ''X'', [], [], [], []] = Inr None \<and>
   [[], ''O'', ''O'', ''X'', ''X'', [], [], [], []] ! 5 = [] \<and>
   check_winner ([[], ''O'', ''O'', ''X'', ''X'', [], [], [], []][5 := ''X'']) = Inr (Some ''X'') \<and>
   check_winner ([[], ''O'', ''O'', ''X'', ''X'', [], [], [], []][0 := ''X'']) = Inr None \<and>
   ai_move 10 [[], ''O'', ''O'', ''X'', ''X'', [], [], [], []] ''X'' ''O'' = Inr (Some 0)"
proof -
  have "ai_move 10 (concrete ''X'' ''O'' [Blank, Hu, Hu, Ai, Ai, Blank, Blank, Blank, Blank])
      ''X'' ''O'' = Inr (Some 0)"
    by (rule ai_move_compute [OF marks_XO _ fork_value]) simp_all
  then show ?thesis
    by (simp add: concrete_def check_winner_find WINNING_LINES_def three_in_row_def)
qed


text \<open>
  Claim C4, amended. On a board that is not terminal, on which the AI cannot complete a
  line with one move and the opponent would complete one at the empty position \<open>t\<close>,
  \<open>ai_move\<close> returns \<open>t\<close> whenever the search value of the board is at least 0. When
  every move loses (value -1) nothing is promised; on the board
  \<open>['', A, '', B, B, '', '', '', '']\<close> the value is -1 and \<open>ai_move\<close> returns
  position 0.
\<close>

theorem ai_move_blocks:
  assumes "valid_marks ai_player human_player" "9 < depth"
  shows "(\<forall>board t. length board = 9 \<and> set board \<subseteq> {[], ai_player, human_player} \<and>
            check_winner board = Inr None \<and>
            (\<forall>m<9. board ! m = [] \<longrightarrow>
               check_winner (board[m := ai_player]) \<noteq> Inr (Some ai_player)) \<and>
            t < 9 \<and> board ! t = [] \<and>
            check_winner (board[t := human_player]) = Inr (Some human_player) \<longrightarrow>
            (\<exists>v bm. minimax_cached depth board ai_player human_player True (- 999) 999
                      = Inr (v, bm) \<and>
                    ai_move depth board ai_player human_player = Inr bm \<and>
                    (0 \<le> v \<longrightarrow> bm = Some t))) \<and>
         minimax_cached depth [[], ai_player, [], human_player, human_player, [], [], [], []]
           ai_player human_player True (- 999) 999 = Inr (- 1, Some 0) \<and>
         ai_move depth [[], ai_player, [], human_player, human_player, [], [], [], []]
           ai_player human_player = Inr (Some 0)"
proof (intro conjI allI impI)
  fix board t
  assume h: "length board = 9 \<and> set board \<subseteq> {[], ai_player, human_player} \<and>
            check_winner board = Inr None \<and>
            (\<forall>m<9. board ! m = [] \<longrightarrow>
               check_winner (board[m := ai_player]) \<noteq> Inr (Some ai_player)) \<and>
            t < 9 \<and> board ! t = [] \<and>
            check_winner (board[t := human_player]) = Inr (Some human_player)"
  then obtain v bm where
    "minimax_cached depth board ai_player human_player True (- 999) 999 = Inr (v, bm)"
    "0 \<le> v \<longrightarrow> bm = Some t"
    using block_or_lose [OF assms, of board t] by blast
  then show "\<exists>v bm. minimax_cached depth board ai_player human_player True (- 999) 999
                      = Inr (v, bm) \<and>
                    ai_move depth board ai_player human_player = Inr bm \<and>
                    (0 \<le> v \<longrightarrow> bm = Some t)"
    by (auto simp: ai_move_def)
next
  let ?cs = "[Blank, Ai, Blank, Hu, Hu, Blank, Blank, Blank, Blank]"
  have c: "concrete ai_player human_player ?cs =
      [[], ai_player, [], human_player, human_player, [], [], [], []]"
    by (simp add: concrete_def)
  have d: "10 \<le> depth" using assms(2) by simp
  show "minimax_cached depth [[], ai_player, [], human_player, human_player, [], [], [], []]
           ai_player human_player True (- 999) 999 = Inr (- 1, Some 0)"
    using minimax_cached_compute [OF assms(1) _ lost_value d] by (simp add: c)
  then show "ai_move depth [[], ai_player, [], human_player, human_player, [], [], [], []]
           ai_player human_player = Inr (Some 0)"
    by (simp add: ai_move_def)
qed

theorem ai_move_blocks_witness:
  "ai_move 10 [''X'', [], [], ''O'', ''O'', [], [], [], []] ''X'' ''O'' = Inr (Some 5) \<and>
   ai_move 10 [[], ''X'', [], ''O'', ''O'', [], [], [], []] ''X'' ''O'' = Inr (Some 0)"
proof -
  let ?b = "[''X'', [], [], ''O'', ''O'', [], [], [], []]"
  have d: "(9::nat) < 10" by simp
  note inst = ai_move_blocks [OF marks_XO d]
  have h: "length ?b = 9 \<and> set ?b \<subseteq> {[], ''X'', ''O''} \<and> check_winner ?b = Inr None \<and>
      (\<forall>m<9. ?b ! m = [] \<longrightarrow> check_winner (?b[m := ''X'']) \<noteq> Inr (Some ''X'')) \<and>
      (5::nat) < 9 \<and> ?b ! 5 = [] \<and> check_winner (?b[5 := ''O'']) = Inr (Some ''O'')"
    by (simp add: all_less_9 check_winner_find WINNING_LINES_def three_in_row_def)
  with inst obtain v bm where r:
    "minimax_cached 10 ?b ''X'' ''O'' True (- 999) 999 = Inr (v, bm)"
    "ai_move 10 ?b ''X'' ''O'' = Inr bm" "0 \<le> v \<longrightarrow> bm = Some 5"
    by blast
  have "minimax_cached 10 (concrete ''X'' ''O'' [Ai, Blank, Blank, Hu, Hu, Blank, Blank, Blank, Blank])
      ''X'' ''O'' True (- 999) 999 = Inr (0, Some 5)"
    by (rule minimax_cached_compute [OF marks_XO _ block_value]) simp_all
  with r(1) have "v = 0" by (simp add: concrete_def)
  with r have "ai_move 10 ?b ''X'' ''O'' = Inr (Some 5)" by simp
  with inst show ?thesis by blast
qed

text \<open>
  Claim C4 as stated fails on its own example: position 3 holds the opponent's mark, the
  blocking position is 5, and \<open>ai_move\<close> returns 0.
\<close>

theorem block_counterexample:
  "check_winner [[], ''X'', [], ''O'', ''O'', [], [], [], []] = Inr None \<and>
   [[], ''X'', [], ''O'', ''O'', [], [], [], []] ! 3 = ''O'' \<and>
   check_winner ([[], ''X'', [], ''O'', ''O'', [], [], [], []][5 := ''O'']) = Inr (Some ''O'') \<and>
   ai_move 10 [[], ''X'', [], ''O'', ''O'', [], [], [], []] ''X'' ''O'' = Inr (Some 0)"
proof -
  have "ai_move 10 (concrete ''X'' ''O'' [Blank, Ai, Blank, Hu, Hu, Blank, Blank, Blank, Blank])
      ''X'' ''O'' = Inr (Some 0)"
    by (rule ai_move_compute [OF marks_XO _ lost_value]) simp_all
  then show ?thesis
    by (simp add: concrete_def check_winner_find WINNING_LINES_def three_in_row_def)
qed

section \<open>Ties go to the first explored child\<close>

lemma max_explored_moves:
  "(m', s') \<in> set (max_explored rec a h ms board val alpha beta) \<Longrightarrow> m' \<in> set ms"
proof (induction ms arbitrary: board val alpha)
  case Nil
  then show ?case by simp
next
  case (Cons m ms)
  then show ?case
    by (auto simp: Let_def split: sum.splits prod.splits if_splits)
qed

lemma min_explored_moves:
  "(m', s') \<in> set (min_explored rec a h ms board val alpha beta) \<Longrightarrow> m' \<in> set ms"
proof (induction ms arbitrary: board val beta)
  case Nil
  then show ?case by simp
next
  case (Cons m ms)
  then show ?case
    by (auto simp: Let_def split: sum.splits prod.splits if_splits)
qed

lemma max_loop_first_best:
  assumes "sorted ms"
  shows "max_loop rec a h ms board val best alpha beta = Inr ((v, bm), b') \<Longrightarrow>
         (\<forall>m' s'. (m', s') \<in> set (max_explored rec a h ms board val alpha beta) \<longrightarrow> s' \<le> v) \<and>
         ((v, bm) = (val, best) \<or>
          val < v \<and> (\<exists>m. bm = Some m \<and>
             (m, v) \<in> set (max_explored rec a h ms board val alpha beta) \<and>
             (\<forall>m' s'. (m', s') \<in> set (max_explored rec a h ms board val alpha beta) \<longrightarrow>
                        s' = v \<longrightarrow> m \<le> m')))"
  using assms
proof (induction ms arbitrary: board val best alpha)
  case Nil
  then show ?case by simp
next
  case (Cons m0 rest)
  from Cons.prems(1) obtain b1 s mv b2 where
    st: "setitem board m0 a = Inr b1" "rec b1 a h False alpha beta = Inr (s, mv)"
        "setitem b1 m0 [] = Inr b2"
    by (auto simp: and_then_eq_Inr)
  define val' best' where "val' = (if s > val then s else val)"
    and "best' = (if s > val then Some m0 else best)"
  have ge: "val \<le> val'" "s \<le> val'" by (auto simp: val'_def)
  have later: "m0 \<le> m'" if "(m', s') \<in> set (max_explored rec a h rest b2 val' (max alpha val') beta)"
    for m' s'
    using max_explored_moves [OF that] Cons.prems(2) by auto
  show ?case
  proof (cases "max alpha val' \<ge> beta")
    case True
    with st Cons.prems(1) have "(v, bm) = (val', best')"
      by (auto simp: Let_def val'_def best'_def split: if_splits)
    moreover from True st have "max_explored rec a h (m0 # rest) board val alpha beta = [(m0, s)]"
      by (simp add: Let_def val'_def)
    ultimately show ?thesis
      by (auto simp: val'_def best'_def)
  next
    case False
    with st Cons.prems(1) have
      loop: "max_loop rec a h rest b2 val' best' (max alpha val') beta = Inr ((v, bm), b')"
      by (auto simp: Let_def val'_def best'_def split: if_splits)
    from False st have ex: "max_explored rec a h (m0 # rest) board val alpha beta =
        (m0, s) # max_explored rec a h rest b2 val' (max alpha val') beta"
      by (simp add: Let_def val'_def)
    from Cons.prems(2) have "sorted rest" by simp
    from Cons.IH [OF loop this] have ih:
      "\<forall>m' s'. (m', s') \<in> set (max_explored rec a h rest b2 val' (max alpha val') beta) \<longrightarrow> s' \<le> v"
      "(v, bm) = (val', best') \<or>
          val' < v \<and> (\<exists>m. bm = Some m \<and>
             (m, v) \<in> set (max_explored rec a h rest b2 val' (max alpha val') beta) \<and>
             (\<forall>m' s'. (m', s') \<in> set (max_explored rec a h rest b2 val' (max alpha val') beta) \<longrightarrow>
                        s' = v \<longrightarrow> m \<le> m'))"
      by blast+
    from ih(2) have vge: "val' \<le> v" by auto
    show ?thesis
    proof (cases "(v, bm) = (val', best')")
      case True
      with ih(1) ge later show ?thesis
        unfolding ex by (auto simp: val'_def best'_def split: if_splits)
    next
      case nb: False
      with ih(2) obtain m where m: "val' < v" "bm = Some m"
        "(m, v) \<in> set (max_explored rec a h rest b2 val' (max alpha val') beta)"
        "\<forall>m' s'. (m', s') \<in> set (max_explored rec a h rest b2 val' (max alpha val') beta) \<longrightarrow>
                        s' = v \<longrightarrow> m \<le> m'"
        by blast
      with ih(1) ge show ?thesis
        unfolding ex by auto
    qed
  qed
qed

lemma min_loop_first_best:
  assumes "sorted ms"
  shows "min_loop rec a h ms board val best alpha beta = Inr ((v, bm), b') \<Longrightarrow>
         (\<forall>m' s'. (m', s') \<in> set (min_explored rec a h ms board val alpha beta) \<longrightarrow> v \<le> s') \<and>
         ((v, bm) = (val, best) \<or>
          v < val \<and> (\<exists>m. bm = Some m \<and>
             (m, v) \<in> set (min_explored rec a h ms board val alpha beta) \<and>
             (\<forall>m' s'. (m', s') \<in> set (min_explored rec a h ms board val alpha beta) \<longrightarrow>
                        s' = v \<longrightarrow> m \<le> m')))"
  using assms
proof (induction ms arbitrary: board val best beta)
  case Nil
  then show ?case by simp
next
  case (Cons m0 rest)
  from Cons.prems(1) obtain b1 s mv b2 where
    st: "setitem board m0 h = Inr b1" "rec b1 a h True alpha beta = Inr (s, mv)"
        "setitem b1 m0 [] = Inr b2"
    by (auto simp: and_then_eq_Inr)
  define val' best' where "val' = (if s < val then s else val)"
    and "best' = (if s < val then Some m0 else best)"
  have ge: "val' \<le> val" "val' \<le> s" by (auto simp: val'_def)
  have later: "m0 \<le> m'" if "(m', s') \<in> set (min_explored rec a h rest b2 val' alpha (min beta val'))"
    for m' s'
    using min_explored_moves [OF that] Cons.prems(2) by auto
  show ?case
  proof (cases "alpha \<ge> min beta val'")
    case True
    with st Cons.prems(1) have "(v, bm) = (val', best')"
      by (auto simp: Let_def val'_def best'_def split: if_splits)
    moreover from True st have "min_explored rec a h (m0 # rest) board val alpha beta = [(m0, s)]"
      by (simp add: Let_def val'_def)
    ultimately show ?thesis
      by (auto simp: val'_def best'_def)
  next
    case False
    with st Cons.prems(1) have
      loop: "min_loop rec a h rest b2 val' best' alpha (min beta val') = Inr ((v, bm), b')"
      by (auto simp: Let_def val'_def best'_def split: if_splits)
    from False st have ex: "min_explored rec a h (m0 # rest) board val alpha beta =
        (m0, s) # min_explored rec a h rest b2 val' alpha (min beta val')"
      by (simp add: Let_def val'_def)
    from Cons.prems(2) have "sorted rest" by simp
    from Cons.IH [OF loop this] have ih:
      "\<forall>m' s'. (m', s') \<in> set (min_explored rec a h rest b2 val' alpha (min beta val')) \<longrightarrow> v \<le> s'"
      "(v, bm) = (val', best') \<or>
          v < val' \<and> (\<exists>m. bm = Some m \<and>
             (m, v) \<in> set (min_explored rec a h rest b2 val' alpha (min beta val')) \<and>
             (\<forall>m' s'. (m', s') \<in> set (min_explored rec a h rest b2 val' alpha (min beta val')) \<longrightarrow>
                        s' = v \<longrightarrow> m \<le> m'))"
      by blast+
    from ih(2) have vge: "v \<le> val'" by auto
    show ?thesis
    proof (cases "(v, bm) = (val', best')")
      case True
      with ih(1) ge later show ?thesis
        unfolding ex by (auto simp: val'_def best'_def split: if_splits)
    next
      case nb: False
      with ih(2) obtain m where m: "v < val'" "bm = Some m"
        "(m, v) \<in> set (min_explored rec a h rest b2 val' alpha (min beta val'))"
        "\<forall>m' s'. (m', s') \<in> set (min_explored rec a h rest b2 val' alpha (min beta val')) \<longrightarrow>
                        s' = v \<longrightarrow> m \<le> m'"
        by blast
      with ih(1) ge show ?thesis
        unfolding ex by auto
    qed
  qed
qed



lemma max_explored_prefix:
  "map fst (max_explored rec a h ms board val alpha beta)
     = take (length (max_explored rec a h ms board val alpha beta)) ms"
proof (induction ms arbitrary: board val alpha)
  case Nil
  then show ?case by simp
next
  case (Cons m ms)
  then show ?case
    by (auto simp: Let_def split: sum.splits prod.splits)
qed

lemma min_explored_prefix:
  "map fst (min_explored rec a h ms board val alpha beta)
     = take (length (min_explored rec a h ms board val alpha beta)) ms"
proof (induction ms arbitrary: board val beta)
  case Nil
  then show ?case by simp
next
  case (Cons m ms)
  then show ?case
    by (auto simp: Let_def split: sum.splits prod.splits)
qed

lemma max_explored_scores:
  assumes "\<forall>m \<in> set ms. m < length board \<and> board ! m = []"
  shows "(m', s') \<in> set (max_explored rec a h ms board val alpha beta) \<Longrightarrow>
         \<exists>al mv. rec (board[m' := a]) a h False al beta = Inr (s', mv)"
  using assms
proof (induction ms arbitrary: val alpha)
  case Nil
  then show ?case by simp
next
  case (Cons m0 rest)
  from Cons.prems have m0: "m0 < length board" "board ! m0 = []" by auto
  from Cons.prems have rest: "\<forall>m \<in> set rest. m < length board \<and> board ! m = []" by auto
  show ?case
  proof (cases "rec (board[m0 := a]) a h False alpha beta")
    case (Inl e)
    with Cons.prems(1) m0 show ?thesis by simp
  next
    case (Inr r)
    obtain s mv where r: "r = (s, mv)" by (cases r)
    with Inr Cons.prems(1) m0 have
      "(m', s') = (m0, s) \<or>
       (m', s') \<in> set (max_explored rec a h rest board (if s > val then s else val)
                        (max alpha (if s > val then s else val)) beta)"
      by (auto simp: undo_placement Let_def split: if_splits)
    then show ?thesis
    proof
      assume "(m', s') = (m0, s)"
      with Inr r show ?thesis by auto
    next
      assume "(m', s') \<in> set (max_explored rec a h rest board (if s > val then s else val)
                        (max alpha (if s > val then s else val)) beta)"
      from Cons.IH [OF this rest] show ?thesis .
    qed
  qed
qed

lemma min_explored_scores:
  assumes "\<forall>m \<in> set ms. m < length board \<and> board ! m = []"
  shows "(m', s') \<in> set (min_explored rec a h ms board val alpha beta) \<Longrightarrow>
         \<exists>be mv. rec (board[m' := h]) a h True alpha be = Inr (s', mv)"
  using assms
proof (induction ms arbitrary: val beta)
  case Nil
  then show ?case by simp
next
  case (Cons m0 rest)
  from Cons.prems have m0: "m0 < length board" "board ! m0 = []" by auto
  from Cons.prems have rest: "\<forall>m \<in> set rest. m < length board \<and> board ! m = []" by auto
  show ?case
  proof (cases "rec (board[m0 := h]) a h True alpha beta")
    case (Inl e)
    with Cons.prems(1) m0 show ?thesis by simp
  next
    case (Inr r)
    obtain s mv where r: "r = (s, mv)" by (cases r)
    with Inr Cons.prems(1) m0 have
      "(m', s') = (m0, s) \<or>
       (m', s') \<in> set (min_explored rec a h rest board (if s < val then s else val)
                        alpha (min beta (if s < val then s else val)))"
      by (auto simp: undo_placement Let_def split: if_splits)
    then show ?thesis
    proof
      assume "(m', s') = (m0, s)"
      with Inr r show ?thesis by auto
    next
      assume "(m', s') \<in> set (min_explored rec a h rest board (if s < val then s else val)
                        alpha (min beta (if s < val then s else val)))"
      from Cons.IH [OF this rest] show ?thesis .
    qed
  qed
qed

lemma find_first_best:
  "sorted (map fst ex) \<Longrightarrow> (m, v) \<in> set ex \<Longrightarrow>
   \<forall>m' s'. (m', s') \<in> set ex \<longrightarrow> s' = v \<longrightarrow> m \<le> m' \<Longrightarrow>
   find (\<lambda>p. snd p = v) ex = Some (m, v)"
proof (induction ex)
  case Nil
  then show ?case by simp
next
  case (Cons p ex)
  obtain m0 s0 where p: "p = (m0, s0)" by (cases p)
  show ?case
  proof (cases "s0 = v")
    case True
    with Cons.prems(3) p have "m \<le> m0" by simp
    moreover from Cons.prems(1,2) p have "m0 \<le> m" by force
    ultimately show ?thesis using True p by simp
  next
    case False
    with Cons.prems p have "sorted (map fst ex)" "(m, v) \<in> set ex"
      "\<forall>m' s'. (m', s') \<in> set ex \<longrightarrow> s' = v \<longrightarrow> m \<le> m'"
      by auto
    from Cons.IH [OF this] False p show ?thesis by simp
  qed
qed

lemma sorted_take_moves: "sorted (take n (available_moves board))"
  using sorted_available_moves by (rule sorted_wrt_take)

text \<open>
  Claim C7. A search node on a board of the game that is not terminal returns a value
  \<open>v\<close> and a move \<open>m\<close>. The children its loop explored are a non-empty initial segment
  of the empty positions in ascending order, each with the score the recursive call
  returned for it. The pair \<open>(m, v)\<close> is the first explored child, in that order, whose
  score is \<open>v\<close>; no explored child has a better score (greater when maximizing, smaller
  when minimizing), and every explored child with the score \<open>v\<close> has a position
  \<open>m' \<ge> m\<close>: a later child with an equal score does not replace the best move.
\<close>

theorem first_best_child:
  assumes "ai_player \<noteq> []" "human_player \<noteq> []"
      and "length board = 9" "set board \<subseteq> {[], ai_player, human_player}"
      and "check_winner board = Inr None" "count_list board [] \<le> depth"
  shows "\<exists>v m ex.
           minimax_cached (Suc depth) board ai_player human_player maximizing alpha beta
             = Inr (v, Some m) \<and>
           ex = (if maximizing
                 then max_explored (minimax_cached depth) ai_player human_player
                        (available_moves board) board (- 999) alpha beta
                 else min_explored (minimax_cached depth) ai_player human_player
                        (available_moves board) board 999 alpha beta) \<and>
           ex \<noteq> [] \<and>
           map fst ex = take (length ex) (available_moves board) \<and>
           (m, v) \<in> set ex \<and>
           find (\<lambda>p. snd p = v) ex = Some (m, v) \<and>
           (\<forall>m' s'. (m', s') \<in> set ex \<longrightarrow>
              (if maximizing then s' \<le> v else v \<le> s') \<and>
              (s' = v \<longrightarrow> m \<le> m') \<and>
              (\<exists>al be mv. minimax_cached depth
                   (board[m' := (if maximizing then ai_player else human_player)])
                   ai_player human_player (\<not> maximizing) al be = Inr (s', mv)))"
proof -
  let ?a = ai_player and ?h = human_player
  have moves: "\<forall>m \<in> set (available_moves board). m < length board \<and> board ! m = []"
    by (simp add: available_moves_iff)
  from assms(6) have "count_list board [] < Suc depth" by simp
  from minimax_range [OF assms(1,2,3,4) this, of maximizing alpha beta] assms(5)
  obtain v m where
    node: "minimax_cached (Suc depth) board ?a ?h maximizing alpha beta = Inr (v, Some m)"
    by blast
  show ?thesis
  proof (cases maximizing)
    case True
    let ?ex = "max_explored (minimax_cached depth) ?a ?h (available_moves board) board
                 (- 999) alpha beta"
    from node True assms(5) obtain b' where
      "max_loop (minimax_cached depth) ?a ?h (available_moves board) board
         (- 999) None alpha beta = Inr ((v, Some m), b')"
      by (auto simp: and_then_eq_Inr)
    from max_loop_first_best [OF sorted_available_moves this]
    have fb: "\<forall>m' s'. (m', s') \<in> set ?ex \<longrightarrow> s' \<le> v" "(m, v) \<in> set ?ex"
      "\<forall>m' s'. (m', s') \<in> set ?ex \<longrightarrow> s' = v \<longrightarrow> m \<le> m'"
      by auto
    have pre: "map fst ?ex = take (length ?ex) (available_moves board)"
      by (rule max_explored_prefix)
    then have "sorted (map fst ?ex)" by (simp add: sorted_take_moves)
    from find_first_best [OF this fb(2,3)]
    have fi: "find (\<lambda>p. snd p = v) ?ex = Some (m, v)" .
    have sc: "\<exists>al be mv. minimax_cached depth (board[m' := ?a]) ?a ?h False al be = Inr (s', mv)"
      if "(m', s') \<in> set ?ex" for m' s'
      using max_explored_scores [OF moves that] by blast
    from fb(2) have ne: "?ex \<noteq> []" by auto
    from node True fb pre fi sc ne show ?thesis by auto
  next
    case False
    let ?ex = "min_explored (minimax_cached depth) ?a ?h (available_moves board) board
                 999 alpha beta"
    from node False assms(5) obtain b' where
      "min_loop (minimax_cached depth) ?a ?h (available_moves board) board
         999 None alpha beta = Inr ((v, Some m), b')"
      by (auto simp: and_then_eq_Inr)
    from min_loop_first_best [OF sorted_available_moves this]
    have fb: "\<forall>m' s'. (m', s') \<in> set ?ex \<longrightarrow> v \<le> s'" "(m, v) \<in> set ?ex"
      "\<forall>m' s'. (m', s') \<in> set ?ex \<longrightarrow> s' = v \<longrightarrow> m \<le> m'"
      by auto
    have pre: "map fst ?ex = take (length ?ex) (available_moves board)"
      by (rule min_explored_prefix)
    then have "sorted (map fst ?ex)" by (simp add: sorted_take_moves)
    from find_first_best [OF this fb(2,3)]
    have fi: "find (\<lambda>p. snd p = v) ?ex = Some (m, v)" .
    have sc: "\<exists>al be mv. minimax_cached depth (board[m' := ?h]) ?a ?h True al be = Inr (s', mv)"
      if "(m', s') \<in> set ?ex" for m' s'
      using min_explored_scores [OF moves that] by blast
    from fb(2) have ne: "?ex \<noteq> []" by auto
    from node False fb pre fi sc ne show ?thesis by auto
  qed
qed

lemma tie_max_children:
  "abs_minimax 9 [Ai, Ai, Blank, Blank, Hu, Blank, Blank, Blank, Hu] False (- 999) 999
     = Inr (- 1, Some 2)"
  "abs_minimax 9 [Ai, Blank, Ai, Blank, Hu, Blank, Blank, Blank, Hu] False (- 1) 999
     = Inr (0, Some 1)"
  "abs_minimax 9 [Ai, Blank, Blank, Ai, Hu, Blank, Blank, Blank, Hu] False 0 999
     = Inr (0, Some 6)"
  "abs_minimax 9 [Ai, Blank, Blank, Blank, Hu, Ai, Blank, Blank, Hu] False 0 999
     = Inr (0, Some 1)"
  "abs_minimax 9 [Ai, Blank, Blank, Blank, Hu, Blank, Ai, Blank, Hu] False 0 999
     = Inr (0, Some 3)"
  "abs_minimax 9 [Ai, Blank, Blank, Blank, Hu, Blank, Blank, Ai, Hu] False 0 999
     = Inr (0, Some 1)"
  by code_simp+

lemma tie_min_children:
  "abs_minimax 9 [Hu, Hu, Blank, Blank, Ai, Blank, Blank, Blank, Ai] True (- 999) 999
     = Inr (1, Some 2)"
  "abs_minimax 9 [Hu, Blank, Hu, Blank, Ai, Blank, Blank, Blank, Ai] True (- 999) 1
     = Inr (0, Some 1)"
  "abs_minimax 9 [Hu, Blank, Blank, Hu, Ai, Blank, Blank, Blank, Ai] True (- 999) 0
     = Inr (0, Some 6)"
  "abs_minimax 9 [Hu, Blank, Blank, Blank, Ai, Hu, Blank, Blank, Ai] True (- 999) 0
     = Inr (0, Some 1)"
  "abs_minimax 9 [Hu, Blank, Blank, Blank, Ai, Blank, Hu, Blank, Ai] True (- 999) 0
     = Inr (0, Some 3)"
  "abs_minimax 9 [Hu, Blank, Blank, Blank, Ai, Blank, Blank, Hu, Ai] True (- 999) 0
     = Inr (0, Some 1)"
  by code_simp+

lemma compute9:
  assumes "abs_minimax 9 cs mx al be = Inr r" "length cs = 9"
  shows "minimax_cached 9 (concrete ''X'' ''O'' cs) ''X'' ''O'' mx al be = Inr r"
  using minimax_cached_compute [OF marks_XO assms(2,1)] by simp

lemma tie_max_explored:
  "max_explored (minimax_cached 9) ''X'' ''O''
     (available_moves [''X'', [], [], [], ''O'', [], [], [], ''O''])
     [''X'', [], [], [], ''O'', [], [], [], ''O''] (- 999) (- 999) 999
   = [(1, - 1), (2, 0), (3, 0), (5, 0), (6, 0), (7, 0)]"
proof -
  have am: "available_moves [''X'', [], [], [], ''O'', [], [], [], ''O''] = [1, 2, 3, 5, 6, 7]"
    by code_simp
  note c = tie_max_children [THEN compute9, simplified concrete_def mark_of_def, simplified]
  show ?thesis
    by (simp add: am c setitem_def Let_def del: minimax_cached.simps)
qed

lemma tie_min_explored:
  "min_explored (minimax_cached 9) ''X'' ''O''
     (available_moves [''O'', [], [], [], ''X'', [], [], [], ''X''])
     [''O'', [], [], [], ''X'', [], [], [], ''X''] 999 (- 999) 999
   = [(1, 1), (2, 0), (3, 0), (5, 0), (6, 0), (7, 0)]"
proof -
  have am: "available_moves [''O'', [], [], [], ''X'', [], [], [], ''X''] = [1, 2, 3, 5, 6, 7]"
    by code_simp
  note c = tie_min_children [THEN compute9, simplified concrete_def mark_of_def, simplified]
  show ?thesis
    by (simp add: am c setitem_def Let_def del: minimax_cached.simps)
qed

theorem first_best_child_witness:
  "minimax_cached (Suc 9) [''X'', [], [], [], ''O'', [], [], [], ''O''] ''X'' ''O'' True (- 999) 999
     = Inr (0, Some 2) \<and>
   max_explored (minimax_cached 9) ''X'' ''O''
     (available_moves [''X'', [], [], [], ''O'', [], [], [], ''O''])
     [''X'', [], [], [], ''O'', [], [], [], ''O''] (- 999) (- 999) 999
     = [(1, - 1), (2, 0), (3, 0), (5, 0), (6, 0), (7, 0)] \<and>
   minimax_cached (Suc 9) [''O'', [], [], [], ''X'', [], [], [], ''X''] ''X'' ''O'' False (- 999) 999
     = Inr (0, Some 2) \<and>
   min_explored (minimax_cached 9) ''X'' ''O''
     (available_moves [''O'', [], [], [], ''X'', [], [], [], ''X''])
     [''O'', [], [], [], ''X'', [], [], [], ''X''] 999 (- 999) 999
     = [(1, 1), (2, 0), (3, 0), (5, 0), (6, 0), (7, 0)]"
proof -
  let ?p = "[''X'', [], [], [], ''O'', [], [], [], ''O'']"
  let ?q = "[''O'', [], [], [], ''X'', [], [], [], ''X'']"
  have mk: "''X'' \<noteq> []" "''O'' \<noteq> []" by simp_all
  have p: "length ?p = 9" "set ?p \<subseteq> {[], ''X'', ''O''}" "check_winner ?p = Inr None"
    "count_list ?p [] \<le> 9"
    by (simp_all add: check_winner_find WINNING_LINES_def three_in_row_def)
  have q: "length ?q = 9" "set ?q \<subseteq> {[], ''X'', ''O''}" "check_winner ?q = Inr None"
    "count_list ?q [] \<le> 9"
    by (simp_all add: check_winner_find WINNING_LINES_def three_in_row_def)
  from first_best_child [OF mk p, of True "- 999" 999] obtain v m where
    1: "minimax_cached (Suc 9) ?p ''X'' ''O'' True (- 999) 999 = Inr (v, Some m)"
    and "find (\<lambda>p. snd p = v) (max_explored (minimax_cached 9) ''X'' ''O''
           (available_moves ?p) ?p (- 999) (- 999) 999) = Some (m, v)"
    and "\<forall>m' s'. (m', s') \<in> set (max_explored (minimax_cached 9) ''X'' ''O''
           (available_moves ?p) ?p (- 999) (- 999) 999) \<longrightarrow> s' \<le> v"
    by (auto simp del: minimax_cached.simps)
  then have "v = 0 \<and> m = 2"
    unfolding tie_max_explored by (auto split: if_splits)
  with 1 have a: "minimax_cached (Suc 9) ?p ''X'' ''O'' True (- 999) 999 = Inr (0, Some 2)"
    by (simp del: minimax_cached.simps)
  from first_best_child [OF mk q, of False "- 999" 999] obtain v m where
    2: "minimax_cached (Suc 9) ?q ''X'' ''O'' False (- 999) 999 = Inr (v, Some m)"
    and "find (\<lambda>p. snd p = v) (min_explored (minimax_cached 9) ''X'' ''O''
           (available_moves ?q) ?q 999 (- 999) 999) = Some (m, v)"
    and "\<forall>m' s'. (m', s') \<in> set (min_explored (minimax_cached 9) ''X'' ''O''
           (available_moves ?q) ?q 999 (- 999) 999) \<longrightarrow> v \<le> s'"
    by (auto simp del: minimax_cached.simps)
  then have "v = 0 \<and> m = 2"
    unfolding tie_min_explored by (auto split: if_splits)
  with 2 have b: "minimax_cached (Suc 9) ?q ''X'' ''O'' False (- 999) 999 = Inr (0, Some 2)"
    by (simp del: minimax_cached.simps)
  from a b tie_max_explored tie_min_explored show ?thesis
    by (simp del: minimax_cached.simps max_explored.simps min_explored.simps)
qed

section \<open>The objects a call leaves alone\<close>

lemma store_item_Inr:
  "store_item p i v s = Inr s1 \<Longrightarrow>
     fresh s1 = fresh s \<and> memo s1 = memo s \<and> (\<forall>q. q \<noteq> p \<longrightarrow> lists s1 q = lists s q) \<and>
     setitem (deref s p) i v = Inr (deref s1 p)"
  by (auto simp: store_item_def and_then_eq_Inr deref_def)

lemma frame_refl: "frame s s"
  by (simp add: frame_def)

lemma frame_trans: "frame s s1 \<Longrightarrow> frame s1 s2 \<Longrightarrow> frame s s2"
  by (auto simp: frame_def)

lemma deref_frame: "frame s s' \<Longrightarrow> p < fresh s \<Longrightarrow> deref s' p = deref s p"
  by (simp add: frame_def deref_def)

lemma max_loop_obj_frame:
  assumes "\<forall>bk a h mx al be s res s'. rec bk a h mx al be s = (res, s') \<longrightarrow> frame s s'"
  shows "p < fresh s \<Longrightarrow> max_loop_obj rec a h ms p val best alpha beta s = (res, s') \<Longrightarrow>
         fresh s \<le> fresh s' \<and> (\<forall>q < fresh s. q \<noteq> p \<longrightarrow> lists s' q = lists s q) \<and>
         ((\<forall>m \<in> set ms. m < length (deref s p) \<and> deref s p ! m = []) \<longrightarrow>
            (\<forall>r. res = Inr r \<longrightarrow> deref s' p = deref s p))"
proof (induction ms arbitrary: s val best alpha)
  case Nil
  then show ?case by simp
next
  case (Cons m ms)
  show ?case
  proof (cases "store_item p m a s")
    case (Inl e)
    with Cons.prems show ?thesis by simp
  next
    case (Inr s1)
    note s1 = store_item_Inr [OF Inr]
    obtain r2 s2 where r2: "rec (deref s1 p) a h False alpha beta s1 = (r2, s2)"
      by (cases "rec (deref s1 p) a h False alpha beta s1") auto
    from assms r2 have f2: "frame s1 s2" by blast
    have d2: "deref s2 p = deref s1 p"
      using deref_frame [OF f2] s1 Cons.prems(1) by simp
    show ?thesis
    proof (cases r2)
      case (Inl e)
      with Inr r2 Cons.prems f2 s1 show ?thesis by (auto simp: frame_def)
    next
      case (Inr sc)
      obtain score mv where sc: "sc = (score, mv)" by (cases sc) auto
      show ?thesis
      proof (cases "store_item p m [] s2")
        case (Inl e)
        with \<open>store_item p m a s = Inr s1\<close> r2 Inr sc Cons.prems f2 s1 show ?thesis
          by (auto simp: frame_def)
      next
        case s3: (Inr s3)
        note t3 = store_item_Inr [OF s3]
        have p3: "p < fresh s3" using t3 f2 s1 Cons.prems(1) by (auto simp: frame_def)
        have step: "fresh s \<le> fresh s3 \<and> (\<forall>q < fresh s. q \<noteq> p \<longrightarrow> lists s3 q = lists s q)"
          using t3 f2 s1 by (auto simp: frame_def)
        have d3: "deref s3 p = deref s p"
          if "m < length (deref s p)" "deref s p ! m = []"
        proof -
          from s1 that have "deref s1 p = (deref s p)[m := a]" by (simp add: setitem_def)
          with t3 d2 that have "deref s3 p = (deref s p)[m := a, m := []]"
            by (simp add: setitem_def)
          with that show ?thesis by (simp add: undo_placement)
        qed
        define val' best' where "val' = (if score > val then score else val)"
          and "best' = (if score > val then Some m else best)"
        show ?thesis
        proof (cases "max alpha val' \<ge> beta")
          case True
          with \<open>store_item p m a s = Inr s1\<close> r2 Inr sc s3 Cons.prems(2) have "s' = s3"
            by (auto simp: Let_def val'_def split: if_splits)
          with step d3 show ?thesis by simp
        next
          case False
          with \<open>store_item p m a s = Inr s1\<close> r2 Inr sc s3 Cons.prems(2)
          have "max_loop_obj rec a h ms p val' best' (max alpha val') beta s3 = (res, s')"
            by (auto simp: Let_def val'_def best'_def split: if_splits)
          from Cons.IH [OF p3 this] step d3 show ?thesis by auto
        qed
      qed
    qed
  qed
qed

lemma min_loop_obj_frame:
  assumes "\<forall>bk a h mx al be s res s'. rec bk a h mx al be s = (res, s') \<longrightarrow> frame s s'"
  shows "p < fresh s \<Longrightarrow> min_loop_obj rec a h ms p val best alpha beta s = (res, s') \<Longrightarrow>
         fresh s \<le> fresh s' \<and> (\<forall>q < fresh s. q \<noteq> p \<longrightarrow> lists s' q = lists s q) \<and>
         ((\<forall>m \<in> set ms. m < length (deref s p) \<and> deref s p ! m = []) \<longrightarrow>
            (\<forall>r. res = Inr r \<longrightarrow> deref s' p = deref s p))"
proof (induction ms arbitrary: s val best beta)
  case Nil
  then show ?case by simp
next
  case (Cons m ms)
  show ?case
  proof (cases "store_item p m h s")
    case (Inl e)
    with Cons.prems show ?thesis by simp
  next
    case (Inr s1)
    note s1 = store_item_Inr [OF Inr]
    obtain r2 s2 where r2: "rec (deref s1 p) a h True alpha beta s1 = (r2, s2)"
      by (cases "rec (deref s1 p) a h True alpha beta s1") auto
    from assms r2 have f2: "frame s1 s2" by blast
    have d2: "deref s2 p = deref s1 p"
      using deref_frame [OF f2] s1 Cons.prems(1) by simp
    show ?thesis
    proof (cases r2)
      case (Inl e)
      with Inr r2 Cons.prems f2 s1 show ?thesis by (auto simp: frame_def)
    next
      case (Inr sc)
      obtain score mv where sc: "sc = (score, mv)" by (cases sc) auto
      show ?thesis
      proof (cases "store_item p m [] s2")
        case (Inl e)
        with \<open>store_item p m h s = Inr s1\<close> r2 Inr sc Cons.prems f2 s1 show ?thesis
          by (auto simp: frame_def)
      next
        case s3: (Inr s3)
        note t3 = store_item_Inr [OF s3]
        have p3: "p < fresh s3" using t3 f2 s1 Cons.prems(1) by (auto simp: frame_def)
        have step: "fresh s \<le> fresh s3 \<and> (\<forall>q < fresh s. q \<noteq> p \<longrightarrow> lists s3 q = lists s q)"
          using t3 f2 s1 by (auto simp: frame_def)
        have d3: "deref s3 p = deref s p"
          if "m < length (deref s p)" "deref s p ! m = []"
        proof -
          from s1 that have "deref s1 p = (deref s p)[m := h]" by (simp add: setitem_def)
          with t3 d2 that have "deref s3 p = (deref s p)[m := h, m := []]"
            by (simp add: setitem_def)
          with that show ?thesis by (simp add: undo_placement)
        qed
        define val' best' where "val' = (if score < val then score else val)"
          and "best' = (if score < val then Some m else best)"
        show ?thesis
        proof (cases "alpha \<ge> min beta val'")
          case True
          with \<open>store_item p m h s = Inr s1\<close> r2 Inr sc s3 Cons.prems(2) have "s' = s3"
            by (auto simp: Let_def val'_def split: if_splits)
          with step d3 show ?thesis by simp
        next
          case False
          with \<open>store_item p m h s = Inr s1\<close> r2 Inr sc s3 Cons.prems(2)
          have "min_loop_obj rec a h ms p val' best' alpha (min beta val') s3 = (res, s')"
            by (auto simp: Let_def val'_def best'_def split: if_splits)
          from Cons.IH [OF p3 this] step d3 show ?thesis by auto
        qed
      qed
    qed
  qed
qed


lemma minimax_body_frame:
  assumes "\<forall>bk a h mx al be s res s'. rec bk a h mx al be s = (res, s') \<longrightarrow> frame s s'"
      and "minimax_body rec bk a h mx al be s = (res, s')"
  shows "frame s s' \<and> (\<forall>r. res = Inr r \<longrightarrow> deref s' (fresh s) = bk)"
proof -
  define s1 where "s1 = s\<lparr>lists := (lists s)(fresh s \<mapsto> bk), fresh := Suc (fresh s)\<rparr>"
  have n: "new_list bk s = (fresh s, s1)" by (simp add: new_list_def s1_def)
  have d1: "deref s1 (fresh s) = bk" by (simp add: s1_def deref_def)
  have f1: "fresh s1 = Suc (fresh s)" "\<forall>q < fresh s. lists s1 q = lists s q"
    by (simp_all add: s1_def)
  have p: "fresh s < fresh s1" by (simp add: f1)
  have moves: "\<forall>m \<in> set (available_moves bk). m < length (deref s1 (fresh s)) \<and>
      deref s1 (fresh s) ! m = []"
    by (simp add: d1 available_moves_iff)
  obtain w where w: "check_winner bk = w" by simp
  show ?thesis
  proof (cases w)
    case (Inl e)
    with assms(2) n d1 w f1 show ?thesis
      by (auto simp: minimax_body_def frame_def)
  next
    case (Inr result)
    show ?thesis
    proof (cases "result = Some a \<or> result = Some h \<or> result = Some ''Draw''")
      case True
      with Inr assms(2) n d1 w f1 show ?thesis
        by (auto simp: minimax_body_def frame_def split: if_splits)
    next
      case False
      show ?thesis
      proof (cases mx)
        case True
        with False Inr assms(2) n d1 w have
          "max_loop_obj rec a h (available_moves bk) (fresh s) (- 999) None al be s1 = (res, s')"
          by (auto simp: minimax_body_def)
        from max_loop_obj_frame [of rec, OF assms(1) p this] moves d1 f1 show ?thesis
          by (auto simp: frame_def)
      next
        case mn: False
        with False Inr assms(2) n d1 w have
          "min_loop_obj rec a h (available_moves bk) (fresh s) 999 None al be s1 = (res, s')"
          by (auto simp: minimax_body_def)
        from min_loop_obj_frame [of rec, OF assms(1) p this] moves d1 f1 show ?thesis
          by (auto simp: frame_def)
      qed
    qed
  qed
qed

lemma minimax_cached_obj_frame:
  "minimax_cached_obj d bk a h mx al be s = (res, s') \<Longrightarrow> frame s s'"
proof (induction d arbitrary: bk a h mx al be s res s')
  case 0
  then show ?case by (auto simp: frame_refl split: option.splits)
next
  case (Suc d)
  show ?case
  proof (cases "memo s (bk, a, h, mx, al, be)")
    case (Some r)
    with Suc.prems show ?thesis by (auto simp: frame_refl)
  next
    case None
    obtain r1 s1 where b: "minimax_body (minimax_cached_obj d) bk a h mx al be s = (r1, s1)"
      by (cases "minimax_body (minimax_cached_obj d) bk a h mx al be s") auto
    have "\<forall>bk a h mx al be s res s'.
        minimax_cached_obj d bk a h mx al be s = (res, s') \<longrightarrow> frame s s'"
      using Suc.IH by blast
    from minimax_body_frame [OF this b] have "frame s s1" by simp
    with None b Suc.prems show ?thesis
      by (cases r1) (auto simp: frame_def)
  qed
qed

section \<open>The cache changes no result\<close>

lemma store_item_exists:
  "setitem (deref s p) i v = Inr xs \<Longrightarrow>
     \<exists>s1. store_item p i v s = Inr s1 \<and> deref s1 p = xs"
  by (simp add: store_item_def deref_def)

lemma minimax_unique:
  assumes "minimax_cached n bk a h mx al be = Inr r" "minimax_cached n' bk a h mx al be = Inr r'"
  shows "r = r'"
proof -
  from assms(1) have "minimax_cached (max n n') bk a h mx al be = Inr r"
    by (rule minimax_mono) simp
  moreover from assms(2) have "minimax_cached (max n n') bk a h mx al be = Inr r'"
    by (rule minimax_mono) simp
  ultimately show ?thesis by simp
qed

lemma max_loop_depth_mono:
  assumes "max_loop (minimax_cached n) a h ms board val best alpha beta = Inr x" "n \<le> n'"
  shows "max_loop (minimax_cached n') a h ms board val best alpha beta = Inr x"
  using assms(1)
proof (rule max_loop_mono [rotated])
  fix b mx al be r
  assume "minimax_cached n b a h mx al be = Inr r"
  then show "minimax_cached n' b a h mx al be = Inr r" using assms(2) by (rule minimax_mono)
qed

lemma min_loop_depth_mono:
  assumes "min_loop (minimax_cached n) a h ms board val best alpha beta = Inr x" "n \<le> n'"
  shows "min_loop (minimax_cached n') a h ms board val best alpha beta = Inr x"
  using assms(1)
proof (rule min_loop_mono [rotated])
  fix b mx al be r
  assume "minimax_cached n b a h mx al be = Inr r"
  then show "minimax_cached n' b a h mx al be = Inr r" using assms(2) by (rule minimax_mono)
qed

lemma max_loop_obj_sound:
  assumes "\<forall>bk a h mx al be s res s'. memo_ok s \<longrightarrow> rec bk a h mx al be s = (res, s') \<longrightarrow>
             memo_ok s' \<and> frame s s' \<and>
             (\<forall>r. res = Inr r \<longrightarrow> (\<exists>n. minimax_cached n bk a h mx al be = Inr r))"
  shows "memo_ok s \<Longrightarrow> p < fresh s \<Longrightarrow>
         max_loop_obj rec a h ms p val best alpha beta s = (res, s') \<Longrightarrow>
         memo_ok s' \<and>
         (\<forall>r. res = Inr r \<longrightarrow>
            (\<exists>n bf. max_loop (minimax_cached n) a h ms (deref s p) val best alpha beta
                      = Inr (r, bf)))"
proof (induction ms arbitrary: s val best alpha)
  case Nil
  then show ?case by auto
next
  case (Cons m ms)
  show ?case
  proof (cases "store_item p m a s")
    case (Inl e)
    with Cons.prems(3) have "res = Inl e" "s' = s" by auto
    with Cons.prems(1) show ?thesis by (simp del: max_loop.simps)
  next
    case (Inr s1)
    note s1 = store_item_Inr [OF Inr]
    have ok1: "memo_ok s1" using s1 Cons.prems(1) by (simp add: memo_ok_def)
    obtain r2 s2 where r2: "rec (deref s1 p) a h False alpha beta s1 = (r2, s2)"
      by (cases "rec (deref s1 p) a h False alpha beta s1") auto
    from assms ok1 r2 have ok2: "memo_ok s2" and f2: "frame s1 s2"
      and snd2: "\<forall>r. r2 = Inr r \<longrightarrow>
         (\<exists>n. minimax_cached n (deref s1 p) a h False alpha beta = Inr r)"
      by blast+
    have d2: "deref s2 p = deref s1 p"
      using deref_frame [OF f2] s1 Cons.prems(2) by simp
    show ?thesis
    proof (cases r2)
      case (Inl e)
      with Inr r2 Cons.prems(3) have "res = Inl e" "s' = s2" by auto
      with ok2 show ?thesis by (simp del: max_loop.simps)
    next
      case (Inr sc)
      obtain score mv where sc: "sc = (score, mv)" by (cases sc) auto
      from snd2 Inr sc obtain n1 where
        n1: "minimax_cached n1 (deref s1 p) a h False alpha beta = Inr (score, mv)" by blast
      show ?thesis
      proof (cases "store_item p m [] s2")
        case (Inl e)
        with \<open>store_item p m a s = Inr s1\<close> r2 Inr sc Cons.prems(3)
        have "res = Inl e" "s' = s2" by auto
        with ok2 show ?thesis by (simp del: max_loop.simps)
      next
        case s3: (Inr s3)
        note t3 = store_item_Inr [OF s3]
        have ok3: "memo_ok s3" using t3 ok2 by (simp add: memo_ok_def)
        have p3: "p < fresh s3" using t3 f2 s1 Cons.prems(2) by (auto simp: frame_def)
        have set1: "setitem (deref s p) m a = Inr (deref s1 p)" using s1 by simp
        have set3: "setitem (deref s1 p) m [] = Inr (deref s3 p)" using t3 d2 by simp
        define val' best' where "val' = (if score > val then score else val)"
          and "best' = (if score > val then Some m else best)"
        show ?thesis
        proof (cases "max alpha val' \<ge> beta")
          case True
          with \<open>store_item p m a s = Inr s1\<close> r2 Inr sc s3 Cons.prems(3)
          have e: "s' = s3" "res = Inr (val', best')"
            by (auto simp: Let_def val'_def best'_def split: if_splits)
          from True set1 set3 n1
          have "max_loop (minimax_cached n1) a h (m # ms) (deref s p) val best alpha beta
                  = Inr ((val', best'), deref s3 p)"
            by (auto simp: Let_def val'_def best'_def)
          with e ok3 show ?thesis by blast
        next
          case False
          with \<open>store_item p m a s = Inr s1\<close> r2 Inr sc s3 Cons.prems(3)
          have "max_loop_obj rec a h ms p val' best' (max alpha val') beta s3 = (res, s')"
            by (auto simp: Let_def val'_def best'_def split: if_splits)
          from Cons.IH [OF ok3 p3 this] have ok': "memo_ok s'"
            and rest: "\<forall>r. res = Inr r \<longrightarrow>
              (\<exists>n bf. max_loop (minimax_cached n) a h ms (deref s3 p) val' best'
                         (max alpha val') beta = Inr (r, bf))"
            by blast+
          have "\<exists>n bf. max_loop (minimax_cached n) a h (m # ms) (deref s p) val best alpha beta
                  = Inr (r, bf)" if "res = Inr r" for r
          proof -
            from rest that obtain n2 bf where
              n2: "max_loop (minimax_cached n2) a h ms (deref s3 p) val' best'
                         (max alpha val') beta = Inr (r, bf)" by blast
            let ?n = "max n1 n2"
            from n1 have c: "minimax_cached ?n (deref s1 p) a h False alpha beta = Inr (score, mv)"
              by (rule minimax_mono) simp
            from n2 have "max_loop (minimax_cached ?n) a h ms (deref s3 p) val' best'
                         (max alpha val') beta = Inr (r, bf)"
              by (rule max_loop_depth_mono) simp
            with False set1 set3 c
            have "max_loop (minimax_cached ?n) a h (m # ms) (deref s p) val best alpha beta
                  = Inr (r, bf)"
              by (auto simp: Let_def val'_def best'_def)
            then show ?thesis by blast
          qed
          with ok' show ?thesis by blast
        qed
      qed
    qed
  qed
qed

lemma min_loop_obj_sound:
  assumes "\<forall>bk a h mx al be s res s'. memo_ok s \<longrightarrow> rec bk a h mx al be s = (res, s') \<longrightarrow>
             memo_ok s' \<and> frame s s' \<and>
             (\<forall>r. res = Inr r \<longrightarrow> (\<exists>n. minimax_cached n bk a h mx al be = Inr r))"
  shows "memo_ok s \<Longrightarrow> p < fresh s \<Longrightarrow>
         min_loop_obj rec a h ms p val best alpha beta s = (res, s') \<Longrightarrow>
         memo_ok s' \<and>
         (\<forall>r. res = Inr r \<longrightarrow>
            (\<exists>n bf. min_loop (minimax_cached n) a h ms (deref s p) val best alpha beta
                      = Inr (r, bf)))"
proof (induction ms arbitrary: s val best beta)
  case Nil
  then show ?case by auto
next
  case (Cons m ms)
  show ?case
  proof (cases "store_item p m h s")
    case (Inl e)
    with Cons.prems(3) have "res = Inl e" "s' = s" by auto
    with Cons.prems(1) show ?thesis by (simp del: min_loop.simps)
  next
    case (Inr s1)
    note s1 = store_item_Inr [OF Inr]
    have ok1: "memo_ok s1" using s1 Cons.prems(1) by (simp add: memo_ok_def)
    obtain r2 s2 where r2: "rec (deref s1 p) a h True alpha beta s1 = (r2, s2)"
      by (cases "rec (deref s1 p) a h True alpha beta s1") auto
    from assms ok1 r2 have ok2: "memo_ok s2" and f2: "frame s1 s2"
      and snd2: "\<forall>r. r2 = Inr r \<longrightarrow>
         (\<exists>n. minimax_cached n (deref s1 p) a h True alpha beta = Inr r)"
      by blast+
    have d2: "deref s2 p = deref s1 p"
      using deref_frame [OF f2] s1 Cons.prems(2) by simp
    show ?thesis
    proof (cases r2)
      case (Inl e)
      with Inr r2 Cons.prems(3) have "res = Inl e" "s' = s2" by auto
      with ok2 show ?thesis by (simp del: min_loop.simps)
    next
      case (Inr sc)
      obtain score mv where sc: "sc = (score, mv)" by (cases sc) auto
      from snd2 Inr sc obtain n1 where
        n1: "minimax_cached n1 (deref s1 p) a h True alpha beta = Inr (score, mv)" by blast
      show ?thesis
      proof (cases "store_item p m [] s2")
        case (Inl e)
        with \<open>store_item p m h s = Inr s1\<close> r2 Inr sc Cons.prems(3)
        have "res = Inl e" "s' = s2" by auto
        with ok2 show ?thesis by (simp del: min_loop.simps)
      next
        case s3: (Inr s3)
        note t3 = store_item_Inr [OF s3]
        have ok3: "memo_ok s3" using t3 ok2 by (simp add: memo_ok_def)
        have p3: "p < fresh s3" using t3 f2 s1 Cons.prems(2) by (auto simp: frame_def)
        have set1: "setitem (deref s p) m h = Inr (deref s1 p)" using s1 by simp
        have set3: "setitem (deref s1 p) m [] = Inr (deref s3 p)" using t3 d2 by simp
        define val' best' where "val' = (if score < val then score else val)"
          and "best' = (if score < val then Some m else best)"
        show ?thesis
        proof (cases "alpha \<ge> min beta val'")
          case True
          with \<open>store_item p m h s = Inr s1\<close> r2 Inr sc s3 Cons.prems(3)
          have e: "s' = s3" "res = Inr (val', best')"
            by (auto simp: Let_def val'_def best'_def split: if_splits)
          from True set1 set3 n1
          have "min_loop (minimax_cached n1) a h (m # ms) (deref s p) val best alpha beta
                  = Inr ((val', best'), deref s3 p)"
            by (auto simp: Let_def val'_def best'_def)
          with e ok3 show ?thesis by blast
        next
          case False
          with \<open>store_item p m h s = Inr s1\<close> r2 Inr sc s3 Cons.prems(3)
          have "min_loop_obj rec a h ms p val' best' alpha (min beta val') s3 = (res, s')"
            by (auto simp: Let_def val'_def best'_def split: if_splits)
          from Cons.IH [OF ok3 p3 this] have ok': "memo_ok s'"
            and rest: "\<forall>r. res = Inr r \<longrightarrow>
              (\<exists>n bf. min_loop (minimax_cached n) a h ms (deref s3 p) val' best' alpha (min beta val') = Inr (r, bf))"
            by blast+
          have "\<exists>n bf. min_loop (minimax_cached n) a h (m # ms) (deref s p) val best alpha beta
                  = Inr (r, bf)" if "res = Inr r" for r
          proof -
            from rest that obtain n2 bf where
              n2: "min_loop (minimax_cached n2) a h ms (deref s3 p) val' best' alpha (min beta val') = Inr (r, bf)" by blast
            let ?n = "max n1 n2"
            from n1 have c: "minimax_cached ?n (deref s1 p) a h True alpha beta = Inr (score, mv)"
              by (rule minimax_mono) simp
            from n2 have "min_loop (minimax_cached ?n) a h ms (deref s3 p) val' best' alpha (min beta val') = Inr (r, bf)"
              by (rule min_loop_depth_mono) simp
            with False set1 set3 c
            have "min_loop (minimax_cached ?n) a h (m # ms) (deref s p) val best alpha beta
                  = Inr (r, bf)"
              by (auto simp: Let_def val'_def best'_def)
            then show ?thesis by blast
          qed
          with ok' show ?thesis by blast
        qed
      qed
    qed
  qed
qed


lemma max_loop_obj_complete:
  assumes "\<forall>bk a h mx al be s res s'. memo_ok s \<longrightarrow> rec bk a h mx al be s = (res, s') \<longrightarrow>
             memo_ok s' \<and> frame s s'"
      and "\<forall>bk a h mx al be s r. memo_ok s \<longrightarrow> minimax_cached d bk a h mx al be = Inr r \<longrightarrow>
             fst (rec bk a h mx al be s) = Inr r"
  shows "memo_ok s \<Longrightarrow> p < fresh s \<Longrightarrow>
         max_loop (minimax_cached d) a h ms (deref s p) val best alpha beta = Inr (r, bf) \<Longrightarrow>
         fst (max_loop_obj rec a h ms p val best alpha beta s) = Inr r"
proof (induction ms arbitrary: s val best alpha)
  case Nil
  then show ?case by simp
next
  case (Cons m ms)
  from Cons.prems(3) obtain b1 score mv b2 where
    st: "setitem (deref s p) m a = Inr b1" "minimax_cached d b1 a h False alpha beta = Inr (score, mv)"
        "setitem b1 m [] = Inr b2"
    by (auto simp: and_then_eq_Inr)
  from store_item_exists [OF st(1)] obtain s1 where
    s1: "store_item p m a s = Inr s1" "deref s1 p = b1" by blast
  note i1 = store_item_Inr [OF s1(1)]
  have ok1: "memo_ok s1" using i1 Cons.prems(1) by (simp add: memo_ok_def)
  obtain r2 s2 where r2: "rec (deref s1 p) a h False alpha beta s1 = (r2, s2)"
    by (cases "rec (deref s1 p) a h False alpha beta s1") auto
  from assms(1) ok1 r2 have ok2: "memo_ok s2" and f2: "frame s1 s2" by blast+
  from assms(2) ok1 st(2) s1(2) r2 have r2v: "r2 = Inr (score, mv)"
    by (metis fst_conv)
  have d2: "deref s2 p = b1"
    using deref_frame [OF f2] i1 Cons.prems(2) s1(2) by simp
  with st(3) have "setitem (deref s2 p) m [] = Inr b2" by simp
  from store_item_exists [OF this] obtain s3 where
    s3: "store_item p m [] s2 = Inr s3" "deref s3 p = b2" by blast
  note i3 = store_item_Inr [OF s3(1)]
  have ok3: "memo_ok s3" using i3 ok2 by (simp add: memo_ok_def)
  have p3: "p < fresh s3" using i3 f2 i1 Cons.prems(2) by (auto simp: frame_def)
  define val' best' where "val' = (if score > val then score else val)"
    and "best' = (if score > val then Some m else best)"
  show ?case
  proof (cases "max alpha val' \<ge> beta")
    case True
    with st Cons.prems(3) have "r = (val', best')"
      by (auto simp: Let_def val'_def best'_def split: if_splits)
    with True s1 r2 r2v s3 show ?thesis
      by (auto simp: Let_def val'_def best'_def)
  next
    case False
    with st Cons.prems(3) have
      "max_loop (minimax_cached d) a h ms b2 val' best' (max alpha val') beta = Inr (r, bf)"
      by (auto simp: Let_def val'_def best'_def split: if_splits)
    with s3(2) have "max_loop (minimax_cached d) a h ms (deref s3 p) val' best'
        (max alpha val') beta = Inr (r, bf)" by simp
    from Cons.IH [OF ok3 p3 this] False s1 r2 r2v s3 show ?thesis
      by (auto simp: Let_def val'_def best'_def)
  qed
qed

lemma min_loop_obj_complete:
  assumes "\<forall>bk a h mx al be s res s'. memo_ok s \<longrightarrow> rec bk a h mx al be s = (res, s') \<longrightarrow>
             memo_ok s' \<and> frame s s'"
      and "\<forall>bk a h mx al be s r. memo_ok s \<longrightarrow> minimax_cached d bk a h mx al be = Inr r \<longrightarrow>
             fst (rec bk a h mx al be s) = Inr r"
  shows "memo_ok s \<Longrightarrow> p < fresh s \<Longrightarrow>
         min_loop (minimax_cached d) a h ms (deref s p) val best alpha beta = Inr (r, bf) \<Longrightarrow>
         fst (min_loop_obj rec a h ms p val best alpha beta s) = Inr r"
proof (induction ms arbitrary: s val best beta)
  case Nil
  then show ?case by simp
next
  case (Cons m ms)
  from Cons.prems(3) obtain b1 score mv b2 where
    st: "setitem (deref s p) m h = Inr b1" "minimax_cached d b1 a h True alpha beta = Inr (score, mv)"
        "setitem b1 m [] = Inr b2"
    by (auto simp: and_then_eq_Inr)
  from store_item_exists [OF st(1)] obtain s1 where
    s1: "store_item p m h s = Inr s1" "deref s1 p = b1" by blast
  note i1 = store_item_Inr [OF s1(1)]
  have ok1: "memo_ok s1" using i1 Cons.prems(1) by (simp add: memo_ok_def)
  obtain r2 s2 where r2: "rec (deref s1 p) a h True alpha beta s1 = (r2, s2)"
    by (cases "rec (deref s1 p) a h True alpha beta s1") auto
  from assms(1) ok1 r2 have ok2: "memo_ok s2" and f2: "frame s1 s2" by blast+
  from assms(2) ok1 st(2) s1(2) r2 have r2v: "r2 = Inr (score, mv)"
    by (metis fst_conv)
  have d2: "deref s2 p = b1"
    using deref_frame [OF f2] i1 Cons.prems(2) s1(2) by simp
  with st(3) have "setitem (deref s2 p) m [] = Inr b2" by simp
  from store_item_exists [OF this] obtain s3 where
    s3: "store_item p m [] s2 = Inr s3" "deref s3 p = b2" by blast
  note i3 = store_item_Inr [OF s3(1)]
  have ok3: "memo_ok s3" using i3 ok2 by (simp add: memo_ok_def)
  have p3: "p < fresh s3" using i3 f2 i1 Cons.prems(2) by (auto simp: frame_def)
  define val' best' where "val' = (if score < val then score else val)"
    and "best' = (if score < val then Some m else best)"
  show ?case
  proof (cases "alpha \<ge> min beta val'")
    case True
    with st Cons.prems(3) have "r = (val', best')"
      by (auto simp: Let_def val'_def best'_def split: if_splits)
    with True s1 r2 r2v s3 show ?thesis
      by (auto simp: Let_def val'_def best'_def)
  next
    case False
    with st Cons.prems(3) have
      "min_loop (minimax_cached d) a h ms b2 val' best' alpha (min beta val') = Inr (r, bf)"
      by (auto simp: Let_def val'_def best'_def split: if_splits)
    with s3(2) have "min_loop (minimax_cached d) a h ms (deref s3 p) val' best' alpha (min beta val') = Inr (r, bf)" by simp
    from Cons.IH [OF ok3 p3 this] False s1 r2 r2v s3 show ?thesis
      by (auto simp: Let_def val'_def best'_def)
  qed
qed

lemma memo_ok_update:
  assumes "memo_ok s" "minimax_cached n bk a h mx al be = Inr r"
  shows "memo_ok (s\<lparr>memo := (memo s)((bk, a, h, mx, al, be) \<mapsto> r)\<rparr>)"
  using assms unfolding memo_ok_def by (auto split: if_splits)

lemma memo_okD:
  "memo_ok s \<Longrightarrow> memo s (bk, a, h, mx, al, be) = Some r \<Longrightarrow>
     \<exists>n. minimax_cached n bk a h mx al be = Inr r"
  unfolding memo_ok_def by blast

lemma minimax_cached_obj_sound:
  "memo_ok s \<Longrightarrow> minimax_cached_obj d bk a h mx al be s = (res, s') \<Longrightarrow>
     memo_ok s' \<and> frame s s' \<and>
     (\<forall>r. res = Inr r \<longrightarrow> (\<exists>n. minimax_cached n bk a h mx al be = Inr r))"
proof (induction d arbitrary: bk a h mx al be s res s')
  case 0
  then show ?case
    by (auto simp: frame_refl memo_ok_def split: option.splits)
next
  case (Suc d)
  have fr: "frame s s'" using Suc.prems(2) by (rule minimax_cached_obj_frame)
  show ?case
  proof (cases "memo s (bk, a, h, mx, al, be)")
    case (Some r)
    with Suc.prems have "res = Inr r" "s' = s" by auto
    moreover from Suc.prems(1) Some have "\<exists>n. minimax_cached n bk a h mx al be = Inr r"
      by (rule memo_okD)
    ultimately show ?thesis using Suc.prems(1) fr by (simp del: minimax_cached.simps)
  next
    case None
    have ih: "\<forall>bk a h mx al be s res s'. memo_ok s \<longrightarrow>
        minimax_cached_obj d bk a h mx al be s = (res, s') \<longrightarrow>
        memo_ok s' \<and> frame s s' \<and>
        (\<forall>r. res = Inr r \<longrightarrow> (\<exists>n. minimax_cached n bk a h mx al be = Inr r))"
      using Suc.IH by blast
    define s1 where "s1 = s\<lparr>lists := (lists s)(fresh s \<mapsto> bk), fresh := Suc (fresh s)\<rparr>"
    have n: "new_list bk s = (fresh s, s1)" by (simp add: new_list_def s1_def)
    have d1: "deref s1 (fresh s) = bk" by (simp add: s1_def deref_def)
    have ok1: "memo_ok s1" using Suc.prems(1) by (simp add: memo_ok_def s1_def)
    have p: "fresh s < fresh s1" by (simp add: s1_def)
    obtain r1 s2 where b: "minimax_body (minimax_cached_obj d) bk a h mx al be s = (r1, s2)"
      by (cases "minimax_body (minimax_cached_obj d) bk a h mx al be s") auto
    have body: "memo_ok s2 \<and> (\<forall>r. r1 = Inr r \<longrightarrow> (\<exists>n. minimax_cached n bk a h mx al be = Inr r))"
    proof (cases "check_winner bk")
      case (Inl e)
      with b n d1 ok1 show ?thesis by (auto simp: minimax_body_def)
    next
      case (Inr result)
      show ?thesis
      proof (cases "result = Some a \<or> result = Some h \<or> result = Some ''Draw''")
        case True
        with Inr b n d1 have "s2 = s1" "minimax_cached (Suc 0) bk a h mx al be = r1"
          by (auto simp: minimax_body_def split: if_splits)
        with ok1 show ?thesis by blast
      next
        case False
        show ?thesis
        proof (cases mx)
          case True
          with False Inr b n d1 have
            "max_loop_obj (minimax_cached_obj d) a h (available_moves bk) (fresh s) (- 999) None
               al be s1 = (r1, s2)"
            by (auto simp: minimax_body_def)
          from max_loop_obj_sound [OF ih ok1 p this] d1 have ok2: "memo_ok s2"
            and lp: "\<forall>r. r1 = Inr r \<longrightarrow> (\<exists>n bf. max_loop (minimax_cached n) a h
                (available_moves bk) bk (- 999) None al be = Inr (r, bf))"
            by auto
          have "\<exists>n. minimax_cached n bk a h mx al be = Inr r" if "r1 = Inr r" for r
          proof -
            from lp that obtain n bf where "max_loop (minimax_cached n) a h
                (available_moves bk) bk (- 999) None al be = Inr (r, bf)" by blast
            with False Inr True have "minimax_cached (Suc n) bk a h mx al be = Inr r"
              by simp
            then show ?thesis by blast
          qed
          with ok2 show ?thesis by blast
        next
          case mn: False
          with False Inr b n d1 have
            "min_loop_obj (minimax_cached_obj d) a h (available_moves bk) (fresh s) 999 None
               al be s1 = (r1, s2)"
            by (auto simp: minimax_body_def)
          from min_loop_obj_sound [OF ih ok1 p this] d1 have ok2: "memo_ok s2"
            and lp: "\<forall>r. r1 = Inr r \<longrightarrow> (\<exists>n bf. min_loop (minimax_cached n) a h
                (available_moves bk) bk 999 None al be = Inr (r, bf))"
            by auto
          have "\<exists>n. minimax_cached n bk a h mx al be = Inr r" if "r1 = Inr r" for r
          proof -
            from lp that obtain n bf where "min_loop (minimax_cached n) a h
                (available_moves bk) bk 999 None al be = Inr (r, bf)" by blast
            with False Inr mn have "minimax_cached (Suc n) bk a h mx al be = Inr r"
              by simp
            then show ?thesis by blast
          qed
          with ok2 show ?thesis by blast
        qed
      qed
    qed
    show ?thesis
    proof (cases r1)
      case (Inl e)
      with None b Suc.prems(2) have "res = Inl e" "s' = s2" by auto
      with body fr show ?thesis by (simp del: minimax_cached.simps)
    next
      case (Inr r)
      with None b Suc.prems(2) have e: "res = Inr r"
        "s' = s2\<lparr>memo := (memo s2)((bk, a, h, mx, al, be) \<mapsto> r)\<rparr>" by auto
      from body Inr obtain n where n: "minimax_cached n bk a h mx al be = Inr r" by blast
      from body have "memo_ok s2" by simp
      from memo_ok_update [OF this n] e n fr show ?thesis by blast
    qed
  qed
qed


lemma minimax_cached_obj_complete:
  "memo_ok s \<Longrightarrow> minimax_cached d bk a h mx al be = Inr r \<Longrightarrow>
     fst (minimax_cached_obj d bk a h mx al be s) = Inr r"
proof (induction d arbitrary: bk a h mx al be s r)
  case 0
  then show ?case by simp
next
  case (Suc d)
  show ?case
  proof (cases "memo s (bk, a, h, mx, al, be)")
    case (Some r')
    from memo_okD [OF Suc.prems(1) Some] obtain n where
      "minimax_cached n bk a h mx al be = Inr r'" ..
    from minimax_unique [OF this Suc.prems(2)] Some show ?thesis by simp
  next
    case None
    have snd: "\<forall>bk a h mx al be s res s'. memo_ok s \<longrightarrow>
        minimax_cached_obj d bk a h mx al be s = (res, s') \<longrightarrow> memo_ok s' \<and> frame s s'"
      using minimax_cached_obj_sound by blast
    have cmp: "\<forall>bk a h mx al be s r. memo_ok s \<longrightarrow> minimax_cached d bk a h mx al be = Inr r \<longrightarrow>
        fst (minimax_cached_obj d bk a h mx al be s) = Inr r"
      using Suc.IH by blast
    define s1 where "s1 = s\<lparr>lists := (lists s)(fresh s \<mapsto> bk), fresh := Suc (fresh s)\<rparr>"
    have n: "new_list bk s = (fresh s, s1)" by (simp add: new_list_def s1_def)
    have d1: "deref s1 (fresh s) = bk" by (simp add: s1_def deref_def)
    have ok1: "memo_ok s1" using Suc.prems(1) by (simp add: memo_ok_def s1_def)
    have p: "fresh s < fresh s1" by (simp add: s1_def)
    from Suc.prems(2) obtain result where res: "check_winner bk = Inr result"
      by (auto simp: and_then_eq_Inr)
    have body: "fst (minimax_body (minimax_cached_obj d) bk a h mx al be s) = Inr r"
    proof (cases "result = Some a \<or> result = Some h \<or> result = Some ''Draw''")
      case True
      with res n d1 Suc.prems(2) show ?thesis
        by (auto simp: minimax_body_def split: if_splits)
    next
      case False
      show ?thesis
      proof (cases mx)
        case True
        with False res Suc.prems(2) obtain bf where
          "max_loop (minimax_cached d) a h (available_moves bk) bk (- 999) None al be = Inr (r, bf)"
          by (auto simp: and_then_eq_Inr)
        with d1 have "max_loop (minimax_cached d) a h (available_moves bk) (deref s1 (fresh s))
            (- 999) None al be = Inr (r, bf)" by simp
        from max_loop_obj_complete [OF snd cmp ok1 p this] False res n d1 True show ?thesis
          by (simp add: minimax_body_def)
      next
        case mn: False
        with False res Suc.prems(2) obtain bf where
          "min_loop (minimax_cached d) a h (available_moves bk) bk 999 None al be = Inr (r, bf)"
          by (auto simp: and_then_eq_Inr)
        with d1 have "min_loop (minimax_cached d) a h (available_moves bk) (deref s1 (fresh s))
            999 None al be = Inr (r, bf)" by simp
        from min_loop_obj_complete [OF snd cmp ok1 p this] False res n d1 mn show ?thesis
          by (simp add: minimax_body_def)
      qed
    qed
    obtain r1 s2 where b: "minimax_body (minimax_cached_obj d) bk a h mx al be s = (r1, s2)"
      by (cases "minimax_body (minimax_cached_obj d) bk a h mx al be s") auto
    with body have "r1 = Inr r" by simp
    with None b show ?thesis by simp
  qed
qed

lemma memo_ok_empty: "memo s = (\<lambda>k. None) \<Longrightarrow> memo_ok s"
  by (simp add: memo_ok_def)

lemma memo_kept_refl: "memo_kept s s"
  by (simp add: memo_kept_def)

lemma memo_kept_trans: "memo_kept s s1 \<Longrightarrow> memo_kept s1 s2 \<Longrightarrow> memo_kept s s2"
  by (simp add: memo_kept_def)

lemma memo_kept_memo: "memo s1 = memo s \<Longrightarrow> memo_kept s s1"
  by (simp add: memo_kept_def)

lemma max_loop_obj_keeps:
  assumes "\<forall>bk a h mx al be s res s'. rec bk a h mx al be s = (res, s') \<longrightarrow> memo_kept s s'"
  shows "max_loop_obj rec a h ms p val best alpha beta s = (res, s') \<Longrightarrow> memo_kept s s'"
proof (induction ms arbitrary: s val best alpha)
  case Nil
  then show ?case by (simp add: memo_kept_refl)
next
  case (Cons m ms)
  show ?case
  proof (cases "store_item p m a s")
    case (Inl e)
    with Cons.prems show ?thesis by (auto simp: memo_kept_refl)
  next
    case (Inr s1)
    from store_item_Inr [OF Inr] have k1: "memo_kept s s1" by (simp add: memo_kept_memo)
    obtain r2 s2 where r2: "rec (deref s1 p) a h False alpha beta s1 = (r2, s2)"
      by (cases "rec (deref s1 p) a h False alpha beta s1") auto
    from assms r2 have "memo_kept s1 s2" by blast
    with k1 have k2: "memo_kept s s2" by (rule memo_kept_trans)
    show ?thesis
    proof (cases r2)
      case (Inl e)
      with Inr r2 Cons.prems k2 show ?thesis by auto
    next
      case (Inr sc)
      obtain score mv where sc: "sc = (score, mv)" by (cases sc) auto
      show ?thesis
      proof (cases "store_item p m [] s2")
        case (Inl e)
        with \<open>store_item p m a s = Inr s1\<close> r2 Inr sc Cons.prems k2 show ?thesis by auto
      next
        case s3: (Inr s3)
        from store_item_Inr [OF s3] have "memo_kept s2 s3" by (simp add: memo_kept_memo)
        with k2 have k3: "memo_kept s s3" by (rule memo_kept_trans)
        define val' best' where "val' = (if score > val then score else val)"
          and "best' = (if score > val then Some m else best)"
        show ?thesis
        proof (cases "max alpha val' \<ge> beta")
          case True
          with \<open>store_item p m a s = Inr s1\<close> r2 Inr sc s3 Cons.prems have "s' = s3"
            by (auto simp: Let_def val'_def split: if_splits)
          with k3 show ?thesis by simp
        next
          case False
          with \<open>store_item p m a s = Inr s1\<close> r2 Inr sc s3 Cons.prems
          have "max_loop_obj rec a h ms p val' best' (max alpha val') beta s3 = (res, s')"
            by (auto simp: Let_def val'_def best'_def split: if_splits)
          from Cons.IH [OF this] k3 show ?thesis by (rule memo_kept_trans [rotated])
        qed
      qed
    qed
  qed
qed

lemma min_loop_obj_keeps:
  assumes "\<forall>bk a h mx al be s res s'. rec bk a h mx al be s = (res, s') \<longrightarrow> memo_kept s s'"
  shows "min_loop_obj rec a h ms p val best alpha beta s = (res, s') \<Longrightarrow> memo_kept s s'"
proof (induction ms arbitrary: s val best beta)
  case Nil
  then show ?case by (simp add: memo_kept_refl)
next
  case (Cons m ms)
  show ?case
  proof (cases "store_item p m h s")
    case (Inl e)
    with Cons.prems show ?thesis by (auto simp: memo_kept_refl)
  next
    case (Inr s1)
    from store_item_Inr [OF Inr] have k1: "memo_kept s s1" by (simp add: memo_kept_memo)
    obtain r2 s2 where r2: "rec (deref s1 p) a h True alpha beta s1 = (r2, s2)"
      by (cases "rec (deref s1 p) a h True alpha beta s1") auto
    from assms r2 have "memo_kept s1 s2" by blast
    with k1 have k2: "memo_kept s s2" by (rule memo_kept_trans)
    show ?thesis
    proof (cases r2)
      case (Inl e)
      with Inr r2 Cons.prems k2 show ?thesis by auto
    next
      case (Inr sc)
      obtain score mv where sc: "sc = (score, mv)" by (cases sc) auto
      show ?thesis
      proof (cases "store_item p m [] s2")
        case (Inl e)
        with \<open>store_item p m h s = Inr s1\<close> r2 Inr sc Cons.prems k2 show ?thesis by auto
      next
        case s3: (Inr s3)
        from store_item_Inr [OF s3] have "memo_kept s2 s3" by (simp add: memo_kept_memo)
        with k2 have k3: "memo_kept s s3" by (rule memo_kept_trans)
        define val' best' where "val' = (if score < val then score else val)"
          and "best' = (if score < val then Some m else best)"
        show ?thesis
        proof (cases "alpha \<ge> min beta val'")
          case True
          with \<open>store_item p m h s = Inr s1\<close> r2 Inr sc s3 Cons.prems have "s' = s3"
            by (auto simp: Let_def val'_def split: if_splits)
          with k3 show ?thesis by simp
        next
          case False
          with \<open>store_item p m h s = Inr s1\<close> r2 Inr sc s3 Cons.prems
          have "min_loop_obj rec a h ms p val' best' alpha (min beta val') s3 = (res, s')"
            by (auto simp: Let_def val'_def best'_def split: if_splits)
          from Cons.IH [OF this] k3 show ?thesis by (rule memo_kept_trans [rotated])
        qed
      qed
    qed
  qed
qed


lemma minimax_cached_obj_keeps:
  "minimax_cached_obj d bk a h mx al be s = (res, s') \<Longrightarrow> memo_kept s s'"
proof (induction d arbitrary: bk a h mx al be s res s')
  case 0
  then show ?case by (auto simp: memo_kept_refl split: option.splits)
next
  case (Suc d)
  show ?case
  proof (cases "memo s (bk, a, h, mx, al, be)")
    case (Some r)
    with Suc.prems show ?thesis by (auto simp: memo_kept_refl)
  next
    case None
    have ih: "\<forall>bk a h mx al be s res s'.
        minimax_cached_obj d bk a h mx al be s = (res, s') \<longrightarrow> memo_kept s s'"
      using Suc.IH by blast
    define s1 where "s1 = s\<lparr>lists := (lists s)(fresh s \<mapsto> bk), fresh := Suc (fresh s)\<rparr>"
    have n: "new_list bk s = (fresh s, s1)" by (simp add: new_list_def s1_def)
    have k1: "memo_kept s s1" by (simp add: memo_kept_def s1_def)
    obtain r1 s2 where b: "minimax_body (minimax_cached_obj d) bk a h mx al be s = (r1, s2)"
      by (cases "minimax_body (minimax_cached_obj d) bk a h mx al be s") auto
    have "memo_kept s1 s2"
      using b n max_loop_obj_keeps [OF ih] min_loop_obj_keeps [OF ih]
      by (auto simp: minimax_body_def memo_kept_refl split: sum.splits if_splits)
    with k1 have k2: "memo_kept s s2" by (rule memo_kept_trans)
    show ?thesis
    proof (cases r1)
      case (Inl e)
      with None b Suc.prems k2 show ?thesis by auto
    next
      case (Inr r)
      with None b Suc.prems have "s' = s2\<lparr>memo := (memo s2)((bk, a, h, mx, al, be) \<mapsto> r)\<rparr>"
        by auto
      with k2 None show ?thesis by (auto simp: memo_kept_def)
    qed
  qed
qed

lemma minimax_cached_obj_stores:
  "minimax_cached_obj d bk a h mx al be s = (Inr r, s') \<Longrightarrow>
     memo s' (bk, a, h, mx, al, be) = Some r"
proof (cases "memo s (bk, a, h, mx, al, be)")
  case (Some r')
  assume "minimax_cached_obj d bk a h mx al be s = (Inr r, s')"
  with Some show ?thesis by (cases d) auto
next
  case None
  assume c: "minimax_cached_obj d bk a h mx al be s = (Inr r, s')"
  with None obtain d' where d: "d = Suc d'" by (cases d) auto
  obtain r1 s2 where b: "minimax_body (minimax_cached_obj d') bk a h mx al be s = (r1, s2)"
    by (cases "minimax_body (minimax_cached_obj d') bk a h mx al be s") auto
  with None c d show ?thesis by (cases r1) auto
qed

lemma minimax_cached_obj_hit:
  "memo s (bk, a, h, mx, al, be) = Some r \<Longrightarrow>
     minimax_cached_obj d bk a h mx al be s = (Inr r, s)"
  by (cases d) auto

section \<open>The caller's board\<close>

text \<open>
  Claim C8. \<open>ai_move\<close> leaves the caller's list as it is: after the call every list
  object that existed before it (every address below the next free one), the board
  among them, holds what it held. The search
  writes only to the lists it makes itself, and a run of the body of \<open>minimax_cached\<close>
  that returns leaves its own list equal to \<open>board_key\<close>: each placement is undone,
  also when the loop ends by the \<open>break\<close>.
\<close>

theorem ai_move_leaves_board:
  assumes "board < fresh s"
  shows "lists (snd (ai_move_obj depth board ai_player human_player s)) board = lists s board \<and>
         (\<forall>q < fresh s. lists (snd (ai_move_obj depth board ai_player human_player s)) q
                          = lists s q) \<and>
         (\<forall>d board_key maximizing alpha beta t r t'.
            minimax_body (minimax_cached_obj d) board_key ai_player human_player
              maximizing alpha beta t = (Inr r, t') \<longrightarrow>
            deref t' (fresh t) = board_key)"
proof -
  let ?a = ai_player and ?h = human_player
  obtain res s' where c: "minimax_cached_obj depth (deref s board) ?a ?h True (- 999) 999 s
      = (res, s')"
    by (cases "minimax_cached_obj depth (deref s board) ?a ?h True (- 999) 999 s") auto
  then have "frame s s'" by (rule minimax_cached_obj_frame)
  moreover from c have "snd (ai_move_obj depth board ?a ?h s) = s'"
    by (cases res) (auto simp: ai_move_obj_def)
  ultimately have 1: "\<forall>q < fresh s. lists (snd (ai_move_obj depth board ?a ?h s)) q = lists s q"
    by (simp add: frame_def)
  have 2: "deref t' (fresh t) = bk"
    if "minimax_body (minimax_cached_obj d) bk ?a ?h mx al be t = (Inr r, t')"
    for d bk mx al be t r t'
  proof -
    have "\<forall>bk a h mx al be s res s'.
        minimax_cached_obj d bk a h mx al be s = (res, s') \<longrightarrow> frame s s'"
      using minimax_cached_obj_frame by blast
    from minimax_body_frame [OF this that] show ?thesis by simp
  qed
  from 1 2 assms show ?thesis by blast
qed

lemma one_cell_body:
  "fst (minimax_body (minimax_cached_obj 1)
          [''X'', ''X'', ''O'', ''O'', ''O'', ''X'', ''X'', ''O'', []] ''X'' ''O'' False
          (- 999) 999 empty_store) = Inr (0, Some 8)"
  by code_simp

theorem ai_move_leaves_board_witness:
  "lists (snd (ai_move_obj 10 0 ''X'' ''O''
       \<lparr>lists = (\<lambda>p. None)(0 \<mapsto> [''X'', ''X'', [], ''O'', ''O'', [], [], [], []]),
        fresh = 1, memo = (\<lambda>k. None)\<rparr>)) 0
     = Some [''X'', ''X'', [], ''O'', ''O'', [], [], [], []] \<and>
   deref (snd (minimax_body (minimax_cached_obj 1)
          [''X'', ''X'', ''O'', ''O'', ''O'', ''X'', ''X'', ''O'', []] ''X'' ''O'' False
          (- 999) 999 empty_store)) 0
     = [''X'', ''X'', ''O'', ''O'', ''O'', ''X'', ''X'', ''O'', []]"
proof -
  let ?s = "\<lparr>lists = (\<lambda>p. None)(0 \<mapsto> [''X'', ''X'', [], ''O'', ''O'', [], [], [], []]),
        fresh = 1, memo = (\<lambda>k. None)\<rparr>"
  let ?b = "[''X'', ''X'', ''O'', ''O'', ''O'', ''X'', ''X'', ''O'', []]"
  have "(0::nat) < fresh ?s" by simp
  note inst = ai_move_leaves_board [OF this, of 10 "''X''" "''O''"]
  have "minimax_body (minimax_cached_obj 1) ?b ''X'' ''O'' False (- 999) 999 empty_store
      = (Inr (0, Some 8), snd (minimax_body (minimax_cached_obj 1) ?b ''X'' ''O'' False
          (- 999) 999 empty_store))"
    using one_cell_body by (metis prod.collapse)
  with inst have "deref (snd (minimax_body (minimax_cached_obj 1) ?b ''X'' ''O'' False
          (- 999) 999 empty_store)) (fresh empty_store) = ?b"
    by blast
  with inst show ?thesis by (simp add: empty_store_def)
qed

section \<open>The key of the cache\<close>


text \<open>
  The theorems on \<open>minimax_cached\<close> and \<open>ai_move\<close> hold for the program with its
  cache: started on a cache whose entries are results of the function (the empty cache,
  the cache after \<open>cache_clear\<close>, the cache after any calls), a call returns what the
  function without cache returns.
\<close>

lemma memo_ok_cache_clear: "memo_ok (cache_clear s)"
  by (simp add: memo_ok_def cache_clear_def)

lemma memo_ok_empty_store: "memo_ok empty_store"
  by (simp add: memo_ok_def empty_store_def)

lemma ai_move_obj_complete:
  assumes "memo_ok s" "ai_move depth (deref s board) a h = Inr mv"
  shows "fst (ai_move_obj depth board a h s) = Inr mv"
proof -
  from assms(2) obtain v where
    "minimax_cached depth (deref s board) a h True (- 999) 999 = Inr (v, mv)"
    by (auto simp: ai_move_def and_then_eq_Inr)
  from minimax_cached_obj_complete [OF assms(1) this] show ?thesis
    by (auto simp: ai_move_obj_def split: prod.splits sum.splits)
qed

lemma narrow_value: "abs_minimax 10 [Ai, Blank, Blank, Hu, Hu, Blank, Blank, Blank, Blank]
    True 5 5 = Inr (- 1, Some 1)"
  by code_simp

lemma two_windows:
  defines "b \<equiv> [''X'', [], [], ''O'', ''O'', [], [], [], []]"
  defines "s1 \<equiv> snd (minimax_cached_obj 10 b ''X'' ''O'' True (- 999) 999 empty_store)"
  shows "minimax_cached_obj 10 b ''X'' ''O'' True (- 999) 999 empty_store = (Inr (0, Some 5), s1)"
    and "memo_ok s1"
    and "fst (minimax_cached_obj 10 b ''X'' ''O'' True 5 5 s1) = Inr (- 1, Some 1)"
proof -
  have b: "b = concrete ''X'' ''O'' [Ai, Blank, Blank, Hu, Hu, Blank, Blank, Blank, Blank]"
    by (simp add: b_def concrete_def)
  have ok0: "memo_ok empty_store" by (simp add: memo_ok_empty empty_store_def)
  have p1: "minimax_cached 10 b ''X'' ''O'' True (- 999) 999 = Inr (0, Some 5)"
    unfolding b by (rule minimax_cached_compute [OF marks_XO _ block_value]) simp_all
  have p2: "minimax_cached 10 b ''X'' ''O'' True 5 5 = Inr (- 1, Some 1)"
    unfolding b by (rule minimax_cached_compute [OF marks_XO _ narrow_value]) simp_all
  from minimax_cached_obj_complete [OF ok0 p1]
  show c1: "minimax_cached_obj 10 b ''X'' ''O'' True (- 999) 999 empty_store = (Inr (0, Some 5), s1)"
    unfolding s1_def by (metis prod.collapse)
  from minimax_cached_obj_sound [OF ok0 c1] show ok1: "memo_ok s1" by simp
  from minimax_cached_obj_complete [OF ok1 p2]
  show "fst (minimax_cached_obj 10 b ''X'' ''O'' True 5 5 s1) = Inr (- 1, Some 1)" .
qed

text \<open>
  Claim C5, amended. The key of the cache is the tuple of all six arguments, alpha and
  beta included. A call that returns stores its result under that key; no later call
  removes an entry; a later call with the same six arguments returns the stored result
  and leaves the store as it is; and a call with the same first four arguments and
  another window is not answered from that entry: on a cache whose entries are results
  of the function it returns what \<open>minimax_cached\<close> gives for its own six arguments.
\<close>

theorem cache_keyed_by_all_arguments:
  assumes "minimax_cached_obj depth board_key ai_player human_player maximizing alpha beta s
             = (Inr r, s')"
  shows "memo s' (board_key, ai_player, human_player, maximizing, alpha, beta) = Some r \<and>
         (\<forall>d bk a h mx al be res t.
            minimax_cached_obj d bk a h mx al be s' = (res, t) \<longrightarrow> memo_kept s' t) \<and>
         (\<forall>t d. memo_kept s' t \<longrightarrow>
            minimax_cached_obj d board_key ai_player human_player maximizing alpha beta t
              = (Inr r, t)) \<and>
         (\<forall>t d alpha' beta' r'. memo_ok t \<and>
            minimax_cached d board_key ai_player human_player maximizing alpha' beta' = Inr r' \<longrightarrow>
            fst (minimax_cached_obj d board_key ai_player human_player maximizing alpha' beta' t)
              = Inr r')"
proof (intro conjI allI impI)
  show e: "memo s' (board_key, ai_player, human_player, maximizing, alpha, beta) = Some r"
    using assms by (rule minimax_cached_obj_stores)
  show "memo_kept s' t" if "minimax_cached_obj d bk a h mx al be s' = (res, t)"
    for d bk a h mx al be res t
    using that by (rule minimax_cached_obj_keeps)
  show "minimax_cached_obj d board_key ai_player human_player maximizing alpha beta t = (Inr r, t)"
    if "memo_kept s' t" for t d
  proof (rule minimax_cached_obj_hit)
    from that e show "memo t (board_key, ai_player, human_player, maximizing, alpha, beta) = Some r"
      unfolding memo_kept_def by blast
  qed
  show "fst (minimax_cached_obj d board_key ai_player human_player maximizing alpha' beta' t)
          = Inr r'"
    if "memo_ok t \<and>
        minimax_cached d board_key ai_player human_player maximizing alpha' beta' = Inr r'"
    for t d alpha' beta' r'
    using that by (simp add: minimax_cached_obj_complete)
qed

theorem cache_keyed_by_all_arguments_witness:
  "memo (snd (minimax_cached_obj 10 [''X'', [], [], ''O'', ''O'', [], [], [], []] ''X'' ''O''
            True (- 999) 999 empty_store))
     ([''X'', [], [], ''O'', ''O'', [], [], [], []], ''X'', ''O'', True, - 999, 999)
     = Some (0, Some 5) \<and>
   minimax_cached_obj 10 [''X'', [], [], ''O'', ''O'', [], [], [], []] ''X'' ''O'' True (- 999) 999
     (snd (minimax_cached_obj 10 [''X'', [], [], ''O'', ''O'', [], [], [], []] ''X'' ''O''
            True (- 999) 999 empty_store))
     = (Inr (0, Some 5),
        snd (minimax_cached_obj 10 [''X'', [], [], ''O'', ''O'', [], [], [], []] ''X'' ''O''
            True (- 999) 999 empty_store)) \<and>
   fst (minimax_cached_obj 10 [''X'', [], [], ''O'', ''O'', [], [], [], []] ''X'' ''O'' True 5 5
     (snd (minimax_cached_obj 10 [''X'', [], [], ''O'', ''O'', [], [], [], []] ''X'' ''O''
            True (- 999) 999 empty_store)))
     = Inr (- 1, Some 1)"
proof -
  let ?b = "[''X'', [], [], ''O'', ''O'', [], [], [], []]"
  let ?s1 = "snd (minimax_cached_obj 10 ?b ''X'' ''O'' True (- 999) 999 empty_store)"
  note inst = cache_keyed_by_all_arguments [OF two_windows(1)]
  have kept: "memo_kept ?s1 ?s1" by (rule memo_kept_refl)
  have "?b = concrete ''X'' ''O'' [Ai, Blank, Blank, Hu, Hu, Blank, Blank, Blank, Blank]"
    by (simp add: concrete_def)
  then have "minimax_cached 10 ?b ''X'' ''O'' True 5 5 = Inr (- 1, Some 1)"
    using minimax_cached_compute [OF marks_XO _ narrow_value, of 10] by simp
  with inst two_windows(2) kept show ?thesis by blast
qed

text \<open>
  Claim C5 as stated fails: after the call with the window (-999, 999) on
  \<open>[X, '', '', O, O, '', '', '', '']\<close> has cached (0, 5), the call with the same board,
  marks and turn and the window (5, 5) returns (-1, 1).
\<close>

theorem stale_window_counterexample:
  "fst (minimax_cached_obj 10 [''X'', [], [], ''O'', ''O'', [], [], [], []] ''X'' ''O''
          True (- 999) 999 empty_store) = Inr (0, Some 5) \<and>
   fst (minimax_cached_obj 10 [''X'', [], [], ''O'', ''O'', [], [], [], []] ''X'' ''O'' True 5 5
     (snd (minimax_cached_obj 10 [''X'', [], [], ''O'', ''O'', [], [], [], []] ''X'' ''O''
            True (- 999) 999 empty_store)))
     = Inr (- 1, Some 1)"
proof -
  have "fst (minimax_cached_obj 10 [''X'', [], [], ''O'', ''O'', [], [], [], []] ''X'' ''O''
          True (- 999) 999 empty_store) = Inr (0, Some 5)"
    using two_windows(1) by (metis fst_conv)
  then show ?thesis using two_windows(3) by (rule conjI)
qed

section \<open>The empty board: value 0, and a draw when both sides search\<close>

lemma self_play_turn:
  assumes "valid_marks p o'" "length cs = 9" "verdict9 cs = Open"
      and "abs_minimax 10 cs True (- 999) 999 = Inr (v, Some m)" "m < 9" "10 \<le> depth"
  shows "self_play (Suc t) depth (concrete p o' cs) p o' =
         self_play t depth (concrete o' p (map flip (cs[m := Ai]))) o' p"
proof -
  from assms(1) have mk: "p \<noteq> []" "o' \<noteq> []" "p \<noteq> o'" by (simp_all add: valid_marks_def)
  have cw: "check_winner (concrete p o' cs) = Inr None"
    using check_winner_abstract [OF mk assms(2)] assms(3) by (simp add: result_of_def)
  have "minimax_cached depth (concrete p o' cs) p o' True (- 999) 999 = Inr (v, Some m)"
    using assms by (intro minimax_cached_compute)
  then have mv: "ai_move depth (concrete p o' cs) p o' = Inr (Some m)"
    by (simp add: ai_move_def)
  have len: "m < length (concrete p o' cs)" using assms(2,5) by (simp add: concrete_def)
  have "(concrete p o' cs)[m := p] = concrete o' p (map flip (cs[m := Ai]))"
    by (simp add: concrete_flip concrete_update)
  with cw mv len show ?thesis by simp
qed

lemma self_play_drawn:
  assumes "valid_marks p o'" "length cs = 9" "verdict9 cs = Drawn"
  shows "self_play (Suc t) depth (concrete p o' cs) p o' = Some (Inr ''Draw'')"
proof -
  from assms(1) have mk: "p \<noteq> []" "o' \<noteq> []" "p \<noteq> o'" by (simp_all add: valid_marks_def)
  have "check_winner (concrete p o' cs) = Inr (Some ''Draw'')"
    using check_winner_abstract [OF mk assms(2)] assms(3) by (simp add: result_of_def)
  then show ?thesis by simp
qed

lemma turn1: "abs_minimax 10 [Hu, Blank, Blank, Blank, Blank, Blank, Blank, Blank, Blank]
    True (- 999) 999 = Inr (0, Some 4)"
  by code_simp

lemma turn2: "abs_minimax 10 [Ai, Blank, Blank, Blank, Hu, Blank, Blank, Blank, Blank]
    True (- 999) 999 = Inr (0, Some 1)"
  by code_simp

lemma turn3: "abs_minimax 10 [Hu, Hu, Blank, Blank, Ai, Blank, Blank, Blank, Blank]
    True (- 999) 999 = Inr (0, Some 2)"
  by code_simp

lemma turn4: "abs_minimax 10 [Ai, Ai, Hu, Blank, Hu, Blank, Blank, Blank, Blank]
    True (- 999) 999 = Inr (0, Some 6)"
  by code_simp

lemma turn5: "abs_minimax 10 [Hu, Hu, Ai, Blank, Ai, Blank, Hu, Blank, Blank]
    True (- 999) 999 = Inr (0, Some 3)"
  by code_simp

lemma turn6: "abs_minimax 10 [Ai, Ai, Hu, Hu, Hu, Blank, Ai, Blank, Blank]
    True (- 999) 999 = Inr (0, Some 5)"
  by code_simp

lemma turn7: "abs_minimax 10 [Hu, Hu, Ai, Ai, Ai, Hu, Hu, Blank, Blank]
    True (- 999) 999 = Inr (0, Some 7)"
  by code_simp

lemma turn8: "abs_minimax 10 [Ai, Ai, Hu, Hu, Hu, Ai, Ai, Hu, Blank]
    True (- 999) 999 = Inr (0, Some 8)"
  by code_simp

lemma first_move_0: "abs_minimax 9 [Ai, Blank, Blank, Blank, Blank, Blank, Blank, Blank, Blank]
    False (- 999) 999 = Inr (0, Some 4)"
  by code_simp

lemma first_move_1: "abs_minimax 9 [Blank, Ai, Blank, Blank, Blank, Blank, Blank, Blank, Blank]
    False 0 999 = Inr (0, Some 0)"
  by code_simp

lemma first_move_2: "abs_minimax 9 [Blank, Blank, Ai, Blank, Blank, Blank, Blank, Blank, Blank]
    False 0 999 = Inr (0, Some 4)"
  by code_simp

lemma first_move_3: "abs_minimax 9 [Blank, Blank, Blank, Ai, Blank, Blank, Blank, Blank, Blank]
    False 0 999 = Inr (0, Some 0)"
  by code_simp

lemma first_move_4: "abs_minimax 9 [Blank, Blank, Blank, Blank, Ai, Blank, Blank, Blank, Blank]
    False 0 999 = Inr (0, Some 0)"
  by code_simp

lemma first_move_5: "abs_minimax 9 [Blank, Blank, Blank, Blank, Blank, Ai, Blank, Blank, Blank]
    False 0 999 = Inr (0, Some 2)"
  by code_simp

lemma first_move_6: "abs_minimax 9 [Blank, Blank, Blank, Blank, Blank, Blank, Ai, Blank, Blank]
    False 0 999 = Inr (0, Some 4)"
  by code_simp

lemma first_move_7: "abs_minimax 9 [Blank, Blank, Blank, Blank, Blank, Blank, Blank, Ai, Blank]
    False 0 999 = Inr (0, Some 1)"
  by code_simp

lemma first_move_8: "abs_minimax 9 [Blank, Blank, Blank, Blank, Blank, Blank, Blank, Blank, Ai]
    False 0 999 = Inr (0, Some 4)"
  by code_simp

lemma turn0: "abs_minimax 10 [Blank, Blank, Blank, Blank, Blank, Blank, Blank, Blank, Blank]
    True (- 999) 999 = Inr (0, Some 0)"
proof -
  have ten: "(10::nat) = Suc 9" by simp
  show ?thesis
    by (subst ten, subst abs_minimax.simps(2))
       (simp add: first_move_0 first_move_1 first_move_2 first_move_3 first_move_4
          first_move_5 first_move_6 first_move_7 first_move_8)
qed

text \<open>
  Claim C2. For every pair of valid marks, with the recursion limit at 10 or more: the
  top-level search on the empty board returns the value 0 (with position 0), and the
  game in which both sides take their moves from \<open>ai_move\<close>, each with its own mark
  as \<open>ai_player\<close>, ends with \<open>check_winner\<close> returning \<open>'Draw'\<close>.
\<close>

theorem self_play_draws:
  assumes "valid_marks a b" "10 \<le> depth" "10 \<le> turns"
  shows "self_play turns depth (replicate 9 []) a b = Some (Inr ''Draw'') \<and>
         minimax_cached depth (replicate 9 []) a b True (- 999) 999 = Inr (0, Some 0)"
proof -
  let ?e = "[Blank, Blank, Blank, Blank, Blank, Blank, Blank, Blank, Blank]"
  note ab = assms(1) and ba = valid_marks_sym [OF assms(1)] and d = assms(2)
  have e: "concrete a b ?e = replicate 9 []"
    by (simp add: concrete_def numeral_eq_Suc)
  have val: "minimax_cached depth (replicate 9 []) a b True (- 999) 999 = Inr (0, Some 0)"
    using minimax_cached_compute [OF ab _ turn0 d] by (simp add: e)
  define t where "t = turns - 10"
  have t: "turns = Suc (Suc (Suc (Suc (Suc (Suc (Suc (Suc (Suc (Suc t)))))))))"
    using assms(3) by (simp add: t_def)
  have "self_play turns depth (concrete a b ?e) a b = Some (Inr ''Draw'')"
    unfolding t
    by (simp add: self_play_turn [OF ab _ _ turn0 _ d] self_play_turn [OF ba _ _ turn1 _ d]
        self_play_turn [OF ab _ _ turn2 _ d] self_play_turn [OF ba _ _ turn3 _ d]
        self_play_turn [OF ab _ _ turn4 _ d] self_play_turn [OF ba _ _ turn5 _ d]
        self_play_turn [OF ab _ _ turn6 _ d] self_play_turn [OF ba _ _ turn7 _ d]
        self_play_turn [OF ab _ _ turn8 _ d] self_play_drawn [OF ba]
        del: self_play.simps)
  with val show ?thesis by (simp add: e)
qed

theorem self_play_draws_witness:
  "self_play 10 1000 (replicate 9 []) ''X'' ''O'' = Some (Inr ''Draw'') \<and>
   minimax_cached 1000 (replicate 9 []) ''X'' ''O'' True (- 999) 999 = Inr (0, Some 0)"
  by (rule self_play_draws) (simp_all add: valid_marks_def)

end
